theory Spec2Isabelle
  imports Main "HOL-Library.Sublist"
begin

section \<open>The find widget of the chat view (\<open>useFindWidget\<close>)\<close>

text \<open>
  The source holds two variants of the hook \<open>useFindWidget\<close>. The first one polls the
  container for highlights and takes a \<open>scrollTo\<close> option in \<open>refreshSearch\<close>; the second
  one remembers the previous search term, carries the message id on every match and
  leaves the highlight refresh to a callback. Both are embedded here; the names of the
  first variant carry the suffix \<open>_v1\<close>.

  A JavaScript string is a sequence of UTF-16 code units. The development never looks
  inside a code unit, so a string is a list over an arbitrary type \<open>'c\<close>. The built-in
  \<open>String.prototype.toLowerCase\<close> is a parameter \<open>lc\<close> of every function that calls it.
\<close>

subsection \<open>Data\<close>

datatype 'c message_part = TextPart "'c list" | OtherPart string

datatype 'c message_content = StringContent "'c list" | PartsContent "'c message_part list"

record 'c chat_message =
  role :: string
  content :: "'c message_content"
  msg_id :: "'c list"

record 'c chat_history_item =
  message :: "'c chat_message"

record rectangle =
  rect_top :: int
  rect_left :: int
  rect_width :: int
  rect_height :: int

record 'c search_match =
  index :: nat
  messageIndex :: "nat option"
  messageId :: "'c list option"
  overlayRectangle :: "rectangle option"

record 'c search_configuration =
  searchTerm :: "'c list"
  caseSensitive :: bool
  useRegex :: bool

text \<open>
  The React state of the hook. \<open>scrollRequests\<close> logs the indices handed to
  \<open>virtuosoRef.current.scrollToIndex\<close> (always with \<open>align: "center"\<close>),
  \<open>highlightTimeouts\<close> counts the pending \<open>setTimeout(updateHighlights, 0)\<close> calls and
  \<open>pollArmed\<close> says whether the 250 ms interval of the first variant is running.
\<close>

record 'c widget_state =
  matches :: "'c search_match list"
  currentMatch :: "'c search_match option"
  prevSearchTerm :: "'c list"
  visibleHighlights :: "'c search_match list"
  scrollRequests :: "nat list"
  highlightTimeouts :: nat
  pollArmed :: bool

datatype js_error = TypeError

text \<open>
  How an event handler ends: it returns, or it throws. The state updates queued before
  the throw are kept, so both cases carry a state.
\<close>

datatype 'c outcome = Returned "'c widget_state" | Threw js_error "'c widget_state"

primrec state_of :: "'c outcome \<Rightarrow> 'c widget_state" where
  "state_of (Returned s) = s"
| "state_of (Threw e s) = s"

datatype scroll_to_match_option = Closest | First | NoScroll

definition initial_state :: "'c widget_state" where
  "initial_state =
     \<lparr>matches = [], currentMatch = None, prevSearchTerm = [], visibleHighlights = [],
      scrollRequests = [], highlightTimeouts = 0, pollArmed = False\<rparr>"

subsection \<open>JavaScript built-ins\<close>

text \<open>\<open>xs[i]\<close>: \<open>undefined\<close> out of range.\<close>

definition js_nth :: "'a list \<Rightarrow> nat \<Rightarrow> 'a option" where
  "js_nth xs i = (if i < length xs then Some (xs ! i) else None)"

text \<open>
  \<open>haystack.indexOf(needle, position)\<close>: the least offset at or after the position
  (clamped to the length) where the needle starts, \<open>None\<close> for \<open>-1\<close>.
\<close>

primrec first_occurrence :: "'c list \<Rightarrow> 'c list \<Rightarrow> nat option" where
  "first_occurrence needle [] = (if needle = [] then Some 0 else None)"
| "first_occurrence needle (x # xs) =
     (if prefix needle (x # xs) then Some 0
      else map_option Suc (first_occurrence needle xs))"

definition indexOf :: "'c list \<Rightarrow> 'c list \<Rightarrow> nat \<Rightarrow> nat option" where
  "indexOf haystack needle position =
     map_option (\<lambda>k. k + min position (length haystack))
       (first_occurrence needle (drop position haystack))"

text \<open>A lower-casing of ASCII letters on \<open>char\<close>, to run the definitions on strings.\<close>

definition ascii_lower_char :: "char \<Rightarrow> char" where
  "ascii_lower_char c =
     (let n = (of_char c :: nat) in if 65 \<le> n \<and> n \<le> 90 then char_of (n + 32) else c)"

definition ascii_toLowerCase :: "string \<Rightarrow> string" where
  "ascii_toLowerCase s = map ascii_lower_char s"

subsection \<open>The scan of the history\<close>

text \<open>The truthiness of \<open>match.messageId\<close>: defined and not the empty string.\<close>

definition truthy :: "'c list option \<Rightarrow> bool" where
  "truthy v = (case v of None \<Rightarrow> False | Some s \<Rightarrow> s \<noteq> [])"

text \<open>
  \<open>typeof content === "string" ? content
     : content.map((part) => (part.type === "text" ? part.text : "")).join("")\<close>.
  The source ends the chain with \<open>: ""\<close> for a content that is neither a string nor an
  array; the type of a message (\<open>string | MessagePart[]\<close>) has no such value.
\<close>

definition part_text :: "'c message_part \<Rightarrow> 'c list" where
  "part_text p = (case p of TextPart t \<Rightarrow> t | OtherPart _ \<Rightarrow> [])"

definition textContent :: "'c message_content \<Rightarrow> 'c list" where
  "textContent c = (case c of StringContent s \<Rightarrow> s | PartsContent ps \<Rightarrow> concat (map part_text ps))"

text \<open>
  The inner loop
  \<open>while ((startIndex = textToCheck.indexOf(query, startIndex)) !== -1)
     { results.push({index: results.length, messageIndex, messageId}); startIndex += query.length; }\<close>.
  It does not return for the empty query, so it is a partial function: \<open>None\<close> is
  divergence. The first variant pushes no \<open>messageId\<close>, which is the argument \<open>mid = None\<close>.
\<close>

partial_function (option) scanMessage ::
  "'c list \<Rightarrow> 'c list \<Rightarrow> nat \<Rightarrow> 'c list option \<Rightarrow> nat \<Rightarrow> 'c search_match list
     \<Rightarrow> 'c search_match list option" where
  "scanMessage textToCheck query historyIndex mid startIndex results =
     (case indexOf textToCheck query startIndex of
        None \<Rightarrow> Some results
      | Some i \<Rightarrow>
          scanMessage textToCheck query historyIndex mid (i + length query)
            (results @ [\<lparr>index = length results, messageIndex = Some historyIndex,
                         messageId = mid, overlayRectangle = None\<rparr>]))"

declare scanMessage.simps [code]

text \<open>The callback of \<open>history.forEach\<close>; \<open>withId\<close> is true in the second variant.\<close>

definition visitItem ::
  "('c list \<Rightarrow> 'c list) \<Rightarrow> bool \<Rightarrow> bool \<Rightarrow> 'c list \<Rightarrow> nat \<times> 'c chat_history_item
     \<Rightarrow> 'c search_match list \<Rightarrow> 'c search_match list option" where
  "visitItem lc withId cs query p results =
     (let historyIndex = fst p; item = snd p in
      if role (message item) = ''system'' then Some results
      else
        let tc = textContent (content (message item));
            textToCheck = (if cs then tc else lc tc)
        in scanMessage textToCheck query historyIndex
             (if withId then Some (msg_id (message item)) else None) 0 results)"

fun forEach ::
  "('a \<Rightarrow> 'b \<Rightarrow> 'b option) \<Rightarrow> 'a list \<Rightarrow> 'b \<Rightarrow> 'b option" where
  "forEach f [] acc = Some acc"
| "forEach f (x # xs) acc = (case f x acc of None \<Rightarrow> None | Some acc' \<Rightarrow> forEach f xs acc')"

definition effective_query :: "('c list \<Rightarrow> 'c list) \<Rightarrow> 'c search_configuration \<Rightarrow> 'c list" where
  "effective_query lc cfg = (if caseSensitive cfg then searchTerm cfg else lc (searchTerm cfg))"

definition scanHistory ::
  "('c list \<Rightarrow> 'c list) \<Rightarrow> bool \<Rightarrow> 'c chat_history_item list \<Rightarrow> 'c search_configuration
     \<Rightarrow> 'c search_match list option" where
  "scanHistory lc withId history cfg =
     forEach (visitItem lc withId (caseSensitive cfg) (effective_query lc cfg))
       (enumerate 0 history) []"

subsection \<open>Navigation\<close>

definition scrollToMatch :: "bool \<Rightarrow> 'c search_match \<Rightarrow> 'c widget_state \<Rightarrow> 'c widget_state" where
  "scrollToMatch virtuoso m s =
     (let s1 = s\<lparr>currentMatch := Some m\<rparr> in
      case messageIndex m of
        None \<Rightarrow> s1
      | Some i \<Rightarrow> if virtuoso then s1\<lparr>scrollRequests := scrollRequests s1 @ [i]\<rparr> else s1)"

text \<open>
  \<open>scrollToMatch(matches[newIndex])\<close>: on \<open>undefined\<close> the call sets the current match
  to \<open>undefined\<close> and then throws a TypeError at the read of \<open>match.messageIndex\<close>.
\<close>

definition scrollToNth :: "bool \<Rightarrow> nat \<Rightarrow> 'c widget_state \<Rightarrow> 'c outcome" where
  "scrollToNth virtuoso newIndex s =
     (case js_nth (matches s) newIndex of
        None \<Rightarrow> Threw TypeError (s\<lparr>currentMatch := None\<rparr>)
      | Some newMatch \<Rightarrow> Returned (scrollToMatch virtuoso newMatch s))"

definition nextMatch :: "bool \<Rightarrow> 'c widget_state \<Rightarrow> 'c outcome" where
  "nextMatch virtuoso s =
     (case currentMatch s of
        None \<Rightarrow> Returned s
      | Some cm \<Rightarrow>
          if length (matches s) = 0 then Returned s
          else scrollToNth virtuoso ((index cm + 1) mod length (matches s)) s)"

definition previousMatch :: "bool \<Rightarrow> 'c widget_state \<Rightarrow> 'c outcome" where
  "previousMatch virtuoso s =
     (case currentMatch s of
        None \<Rightarrow> Returned s
      | Some cm \<Rightarrow>
          if length (matches s) = 0 then Returned s
          else scrollToNth virtuoso
                 (if index cm = 0 then length (matches s) - 1 else index cm - 1) s)"

subsection \<open>\<open>refreshSearch\<close>, second variant\<close>

text \<open>
  \<open>reselect\<close> is the part of \<open>refreshSearch\<close> from \<open>setMatches(results)\<close> to the end of
  the re-selection; the predicate of \<open>results.find\<close> is \<open>sameMessage\<close>.
\<close>

definition sameMessage :: "'c search_match \<Rightarrow> 'c search_match \<Rightarrow> bool" where
  "sameMessage cm r =
     ((truthy (messageId cm) \<and> messageId r = messageId cm)
      \<or> (\<not> truthy (messageId cm) \<and> messageIndex r = messageIndex cm))"

definition reselect ::
  "bool \<Rightarrow> 'c list \<Rightarrow> 'c search_match list \<Rightarrow> 'c widget_state \<Rightarrow> 'c widget_state" where
  "reselect virtuoso term results s =
     (let s1 = s\<lparr>matches := results\<rparr> in
      if term \<noteq> prevSearchTerm s then
        (let s2 = s1\<lparr>prevSearchTerm := term\<rparr> in
         case results of [] \<Rightarrow> s2 | r0 # _ \<Rightarrow> scrollToMatch virtuoso r0 s2)
      else
        (case currentMatch s of
           Some cm \<Rightarrow>
             (case find (sameMessage cm) results of
                Some matchingResult \<Rightarrow> s1\<lparr>currentMatch := Some matchingResult\<rparr>
              | None \<Rightarrow> s1\<lparr>currentMatch := js_nth results 0\<rparr>)
         | None \<Rightarrow>
             if length results > 0 then s1\<lparr>currentMatch := js_nth results 0\<rparr> else s1))"

definition refreshSearch ::
  "('c list \<Rightarrow> 'c list) \<Rightarrow> bool \<Rightarrow> 'c chat_history_item list \<Rightarrow> 'c search_configuration
     \<Rightarrow> 'c widget_state \<Rightarrow> 'c widget_state option" where
  "refreshSearch lc virtuoso history cfg s =
     (if effective_query lc cfg = [] then Some (s\<lparr>matches := []\<rparr>)
      else
        case scanHistory lc True history cfg of
          None \<Rightarrow> None
        | Some results \<Rightarrow>
            (let s3 = reselect virtuoso (searchTerm cfg) results s
             in Some (s3\<lparr>highlightTimeouts := Suc (highlightTimeouts s3)\<rparr>)))"

subsection \<open>\<open>refreshSearch\<close>, first variant\<close>

definition reselect_v1 ::
  "bool \<Rightarrow> scroll_to_match_option \<Rightarrow> 'c list \<Rightarrow> 'c search_match list \<Rightarrow> 'c widget_state
     \<Rightarrow> 'c widget_state" where
  "reselect_v1 virtuoso scrollTo term results s =
     (let s1 = s\<lparr>matches := results\<rparr> in
      if length term > 1 \<and> length results \<noteq> 0 then
        (let s2 = (if scrollTo = First
                   then (case results of [] \<Rightarrow> s1 | r0 # _ \<Rightarrow> scrollToMatch virtuoso r0 s1)
                   else s1)
         in if scrollTo = NoScroll then
              (case currentMatch s of
                 Some cm \<Rightarrow>
                   (case find (\<lambda>r. messageIndex r = messageIndex cm) results of
                      Some matchingResult \<Rightarrow> s2\<lparr>currentMatch := Some matchingResult\<rparr>
                    | None \<Rightarrow> s2\<lparr>currentMatch := js_nth results 0\<rparr>)
               | None \<Rightarrow> s2\<lparr>currentMatch := js_nth results 0\<rparr>)
            else s2)
      else s1)"

definition refreshSearch_v1 ::
  "('c list \<Rightarrow> 'c list) \<Rightarrow> bool \<Rightarrow> 'c chat_history_item list \<Rightarrow> 'c search_configuration
     \<Rightarrow> scroll_to_match_option \<Rightarrow> 'c widget_state \<Rightarrow> 'c widget_state option" where
  "refreshSearch_v1 lc virtuoso history cfg scrollTo s =
     (if effective_query lc cfg = [] then Some (s\<lparr>matches := []\<rparr>)
      else
        case scanHistory lc False history cfg of
          None \<Rightarrow> None
        | Some results \<Rightarrow> Some (reselect_v1 virtuoso scrollTo (searchTerm cfg) results s))"

subsection \<open>Effects and timers\<close>

text \<open>
  \<open>searchWithinContainer\<close> is imported from \<open>./findWidgetSearch\<close> and queries the rendered
  DOM: its \<open>results\<close> are the argument \<open>found\<close> of \<open>updateHighlights\<close>.
\<close>

definition updateHighlights :: "'c search_match list \<Rightarrow> 'c widget_state \<Rightarrow> 'c widget_state" where
  "updateHighlights found s = s\<lparr>visibleHighlights := found\<rparr>"

text \<open>
  The highlight effect of the first variant. React runs the cleanup of the previous run
  (\<open>clearInterval\<close>) before the body.
\<close>

definition highlightEffect_v1 ::
  "bool \<Rightarrow> bool \<Rightarrow> 'c search_match list \<Rightarrow> 'c widget_state \<Rightarrow> 'c widget_state" where
  "highlightEffect_v1 is_open disabled found s =
     (let s0 = s\<lparr>pollArmed := False\<rparr> in
      if \<not> is_open \<or> disabled then s0\<lparr>visibleHighlights := []\<rparr>
      else (updateHighlights found s0)\<lparr>pollArmed := True\<rparr>)"

definition pollTick :: "'c search_match list \<Rightarrow> 'c widget_state \<Rightarrow> 'c widget_state" where
  "pollTick found s = (if pollArmed s then updateHighlights found s else s)"

definition searchEffect_v1 ::
  "('c list \<Rightarrow> 'c list) \<Rightarrow> bool \<Rightarrow> bool \<Rightarrow> bool \<Rightarrow> 'c chat_history_item list
     \<Rightarrow> 'c search_configuration \<Rightarrow> 'c widget_state \<Rightarrow> 'c widget_state option" where
  "searchEffect_v1 lc virtuoso is_open disabled history cfg s =
     (if disabled \<or> \<not> is_open then Some (s\<lparr>matches := []\<rparr>)
      else refreshSearch_v1 lc virtuoso history cfg First s)"

definition searchEffect ::
  "('c list \<Rightarrow> 'c list) \<Rightarrow> bool \<Rightarrow> bool \<Rightarrow> bool \<Rightarrow> 'c chat_history_item list
     \<Rightarrow> 'c search_configuration \<Rightarrow> 'c widget_state \<Rightarrow> 'c widget_state option" where
  "searchEffect lc virtuoso is_open disabled history cfg s =
     (if disabled \<or> \<not> is_open then Some (s\<lparr>matches := []\<rparr>)
      else refreshSearch lc virtuoso history cfg s)"

text \<open>The second variant: a pending \<open>setTimeout(updateHighlights, 0)\<close> fires.\<close>

definition highlightTimeoutFires :: "'c search_match list \<Rightarrow> 'c widget_state \<Rightarrow> 'c widget_state" where
  "highlightTimeoutFires found s =
     (if highlightTimeouts s = 0 then s
      else (updateHighlights found s)\<lparr>highlightTimeouts := highlightTimeouts s - 1\<rparr>)"

text \<open>
  What can happen to the hook while the flags \<open>open\<close> and \<open>disabled\<close> keep their values:
  an effect runs again (a dependency changed), a timer fires, a navigation key or button
  is pressed. The click listener of the second variant is installed only while the widget
  is open; \<open>runHighlightUpdate\<close> is handed to the caller of the hook.
\<close>

datatype 'c event_v1 =
    HighlightEffect_v1 "'c search_match list"
  | SearchEffect_v1 "'c chat_history_item list" "'c search_configuration"
  | PollTick "'c search_match list"
  | PressNext_v1
  | PressPrevious_v1

datatype 'c event =
    SearchEffect "'c chat_history_item list" "'c search_configuration"
  | HighlightTimeout "'c search_match list"
  | ContainerClick "'c search_match list"
  | RunHighlightUpdate "'c search_match list"
  | PressNext
  | PressPrevious

definition step_v1 ::
  "('c list \<Rightarrow> 'c list) \<Rightarrow> bool \<Rightarrow> bool \<Rightarrow> bool \<Rightarrow> 'c event_v1 \<Rightarrow> 'c widget_state
     \<Rightarrow> 'c widget_state option" where
  "step_v1 lc virtuoso is_open disabled ev s =
     (case ev of
        HighlightEffect_v1 found \<Rightarrow> Some (highlightEffect_v1 is_open disabled found s)
      | SearchEffect_v1 history cfg \<Rightarrow> searchEffect_v1 lc virtuoso is_open disabled history cfg s
      | PollTick found \<Rightarrow> Some (pollTick found s)
      | PressNext_v1 \<Rightarrow> Some (state_of (nextMatch virtuoso s))
      | PressPrevious_v1 \<Rightarrow> Some (state_of (previousMatch virtuoso s)))"

definition step ::
  "('c list \<Rightarrow> 'c list) \<Rightarrow> bool \<Rightarrow> bool \<Rightarrow> bool \<Rightarrow> 'c event \<Rightarrow> 'c widget_state
     \<Rightarrow> 'c widget_state option" where
  "step lc virtuoso is_open disabled ev s =
     (case ev of
        SearchEffect history cfg \<Rightarrow> searchEffect lc virtuoso is_open disabled history cfg s
      | HighlightTimeout found \<Rightarrow> Some (highlightTimeoutFires found s)
      | ContainerClick found \<Rightarrow> Some (if is_open then updateHighlights found s else s)
      | RunHighlightUpdate found \<Rightarrow> Some (updateHighlights found s)
      | PressNext \<Rightarrow> Some (state_of (nextMatch virtuoso s))
      | PressPrevious \<Rightarrow> Some (state_of (previousMatch virtuoso s)))"

text \<open>Iterating \<open>next()\<close>; a throw ends the run.\<close>

primrec nextMatch_times :: "nat \<Rightarrow> bool \<Rightarrow> 'c widget_state \<Rightarrow> 'c outcome" where
  "nextMatch_times 0 virtuoso s = Returned s"
| "nextMatch_times (Suc n) virtuoso s =
     (case nextMatch virtuoso s of
        Returned s' \<Rightarrow> nextMatch_times n virtuoso s'
      | Threw e s' \<Rightarrow> Threw e s')"

subsection \<open>The reference scan of the specification\<close>

text \<open>
  The scan as the specification words it, written without \<open>indexOf\<close>: walk over the
  text one offset at a time; where the query stands, record the offset and resume right
  after the matched span. The empty query has no matches.
\<close>

function ref_occurrences :: "'c list \<Rightarrow> 'c list \<Rightarrow> nat \<Rightarrow> nat list" where
  "ref_occurrences q t i =
     (if q = [] \<or> length t < i + length q then []
      else if take (length q) (drop i t) = q then i # ref_occurrences q t (i + length q)
      else ref_occurrences q t (Suc i))"
  by pat_completeness auto
termination
proof (relation "measure (\<lambda>(q, t, i). Suc (length t) - i)", goal_cases)
  case 1
  show ?case by simp
next
  case (2 q t i)
  then have "0 < length q" "i + length q \<le> length t" by simp_all
  then have "Suc (length t) - (i + length q) < Suc (length t) - i" by linarith
  then show ?case by simp
next
  case (3 q t i)
  then have "0 < length q" "i + length q \<le> length t" by simp_all
  then have "Suc (length t) - Suc i < Suc (length t) - i" by linarith
  then show ?case by simp
qed

declare ref_occurrences.simps [simp del]

text \<open>Flattening: a string as it is, of a part array the texts of the text parts, in order.\<close>

fun ref_flatten :: "'c message_content \<Rightarrow> 'c list" where
  "ref_flatten (StringContent s) = s"
| "ref_flatten (PartsContent []) = []"
| "ref_flatten (PartsContent (TextPart t # ps)) = t @ ref_flatten (PartsContent ps)"
| "ref_flatten (PartsContent (OtherPart k # ps)) = ref_flatten (PartsContent ps)"

definition ref_fold :: "('c list \<Rightarrow> 'c list) \<Rightarrow> 'c search_configuration \<Rightarrow> 'c list \<Rightarrow> 'c list" where
  "ref_fold lc cfg t = (if caseSensitive cfg then t else lc t)"

definition message_occurrences ::
  "('c list \<Rightarrow> 'c list) \<Rightarrow> 'c search_configuration \<Rightarrow> 'c chat_history_item \<Rightarrow> nat list" where
  "message_occurrences lc cfg item =
     (if role (message item) = ''system'' then []
      else ref_occurrences (ref_fold lc cfg (searchTerm cfg))
             (ref_fold lc cfg (ref_flatten (content (message item)))) 0)"

text \<open>
  Every occurrence in history order: the index of the message, the message and the
  offset in its text.
\<close>

definition history_occurrences ::
  "('c list \<Rightarrow> 'c list) \<Rightarrow> 'c search_configuration \<Rightarrow> nat \<Rightarrow> 'c chat_history_item list
     \<Rightarrow> (nat \<times> 'c chat_history_item \<times> nat) list" where
  "history_occurrences lc cfg n history =
     concat (map (\<lambda>(i, item). map (\<lambda>off. (i, item, off)) (message_occurrences lc cfg item))
               (enumerate n history))"

definition occurrence_match ::
  "bool \<Rightarrow> nat \<times> (nat \<times> 'c chat_history_item \<times> nat) \<Rightarrow> 'c search_match" where
  "occurrence_match withId p =
     (case p of (k, i, item, off) \<Rightarrow>
        \<lparr>index = k, messageIndex = Some i,
         messageId = (if withId then Some (msg_id (message item)) else None),
         overlayRectangle = None\<rparr>)"

definition ref_matches ::
  "('c list \<Rightarrow> 'c list) \<Rightarrow> 'c search_configuration \<Rightarrow> 'c chat_history_item list
     \<Rightarrow> 'c search_match list" where
  "ref_matches lc cfg history =
     map (occurrence_match True) (enumerate 0 (history_occurrences lc cfg 0 history))"

text \<open>The order of the occurrences: by message index, then by offset in the message.\<close>

definition occurrence_less ::
  "nat \<times> 'c chat_history_item \<times> nat \<Rightarrow> nat \<times> 'c chat_history_item \<times> nat \<Rightarrow> bool" where
  "occurrence_less a b =
     (fst a < fst b \<or> (fst a = fst b \<and> snd (snd a) < snd (snd b)))"

subsection \<open>Notions used in the statements\<close>

text \<open>
  The history of the case-fold equivalence: every message keeps its role and id, and its
  content becomes the lower-cased flattened text.
\<close>

definition lowered_item :: "('c list \<Rightarrow> 'c list) \<Rightarrow> 'c chat_history_item \<Rightarrow> 'c chat_history_item" where
  "lowered_item lc item =
     item\<lparr>message := (message item)\<lparr>content :=
       StringContent (lc (ref_flatten (content (message item))))\<rparr>\<rparr>"

definition lowered_history ::
  "('c list \<Rightarrow> 'c list) \<Rightarrow> 'c chat_history_item list \<Rightarrow> 'c chat_history_item list" where
  "lowered_history lc history = map (lowered_item lc) history"

text \<open>The ordinal of every match is its position in the list.\<close>

definition ordinals_ok :: "'c search_match list \<Rightarrow> bool" where
  "ordinals_ok ms = (map index ms = [0 ..< length ms])"

text \<open>
  An entry of the occurrence list is genuine: the message stands at that index of the
  history, is not a system message, and the query stands at that offset of its folded text.
\<close>

definition is_occurrence ::
  "('c list \<Rightarrow> 'c list) \<Rightarrow> 'c search_configuration \<Rightarrow> 'c chat_history_item list
     \<Rightarrow> nat \<times> 'c chat_history_item \<times> nat \<Rightarrow> bool" where
  "is_occurrence lc cfg history p =
     (case p of (i, item, off) \<Rightarrow>
        i < length history \<and> history ! i = item \<and> role (message item) \<noteq> ''system'' \<and>
        (let q = ref_fold lc cfg (searchTerm cfg)
         in q \<noteq> [] \<and>
            take (length q) (drop off (ref_fold lc cfg (ref_flatten (content (message item))))) = q))"

text \<open>
  What the development needs of \<open>toLowerCase\<close> where the empty query matters: the empty
  string, and no other, is lower-cased to the empty string.
\<close>

definition lower_keeps_empty :: "('c list \<Rightarrow> 'c list) \<Rightarrow> bool" where
  "lower_keeps_empty lc = (\<forall>t. (lc t = []) = (t = []))"

text \<open>Runs of events under fixed flags.\<close>

fun run_v1 ::
  "('c list \<Rightarrow> 'c list) \<Rightarrow> bool \<Rightarrow> bool \<Rightarrow> bool \<Rightarrow> 'c event_v1 list \<Rightarrow> 'c widget_state
     \<Rightarrow> 'c widget_state option" where
  "run_v1 lc virtuoso is_open disabled [] s = Some s"
| "run_v1 lc virtuoso is_open disabled (ev # evs) s =
     (case step_v1 lc virtuoso is_open disabled ev s of
        None \<Rightarrow> None
      | Some s' \<Rightarrow> run_v1 lc virtuoso is_open disabled evs s')"

fun run ::
  "('c list \<Rightarrow> 'c list) \<Rightarrow> bool \<Rightarrow> bool \<Rightarrow> bool \<Rightarrow> 'c event list \<Rightarrow> 'c widget_state
     \<Rightarrow> 'c widget_state option" where
  "run lc virtuoso is_open disabled [] s = Some s"
| "run lc virtuoso is_open disabled (ev # evs) s =
     (case step lc virtuoso is_open disabled ev s of
        None \<Rightarrow> None
      | Some s' \<Rightarrow> run lc virtuoso is_open disabled evs s')"

text \<open>
  The events that are a re-index, and the runs without one: between two re-indexes the
  match list is the one the earlier re-index produced.
\<close>

primrec is_reindex :: "'c event \<Rightarrow> bool" where
  "is_reindex (SearchEffect history cfg) = True"
| "is_reindex (HighlightTimeout found) = False"
| "is_reindex (ContainerClick found) = False"
| "is_reindex (RunHighlightUpdate found) = False"
| "is_reindex PressNext = False"
| "is_reindex PressPrevious = False"

primrec no_reindex :: "'c event list \<Rightarrow> bool" where
  "no_reindex [] = True"
| "no_reindex (ev # evs) = (\<not> is_reindex ev \<and> no_reindex evs)"

subsection \<open>A concrete conversation\<close>

definition example_history :: "char chat_history_item list" where
  "example_history =
     [\<lparr>message = \<lparr>role = ''user'', content = StringContent ''find me'', msg_id = ''m-a''\<rparr>\<rparr>,
      \<lparr>message = \<lparr>role = ''assistant'',
                  content = PartsContent [TextPart ''ok, FIND ME '', OtherPart ''imageUrl'',
                                          TextPart ''again find''],
                  msg_id = ''m-b''\<rparr>\<rparr>]"

definition example_config :: "string \<Rightarrow> bool \<Rightarrow> char search_configuration" where
  "example_config term cs = \<lparr>searchTerm = term, caseSensitive = cs, useRegex = False\<rparr>"

definition example_match :: "nat \<Rightarrow> nat \<Rightarrow> string \<Rightarrow> char search_match" where
  "example_match k i mid =
     \<lparr>index = k, messageIndex = Some i, messageId = Some mid, overlayRectangle = None\<rparr>"

text \<open>The state after the widget was opened and "find" was searched without case sensitivity.\<close>

definition example_state :: "char widget_state" where
  "example_state =
     \<lparr>matches = [example_match 0 0 ''m-a'', example_match 1 1 ''m-b'', example_match 2 1 ''m-b''],
      currentMatch = Some (example_match 0 0 ''m-a''),
      prevSearchTerm = ''find'', visibleHighlights = [],
      scrollRequests = [0], highlightTimeouts = 1, pollArmed = False\<rparr>"

text \<open>A highlight as the search of the rendered container reports it.\<close>

definition example_highlight :: "char search_match" where
  "example_highlight =
     \<lparr>index = 0, messageIndex = None, messageId = None,
      overlayRectangle = Some \<lparr>rect_top = 10, rect_left = 20, rect_width = 30, rect_height = 12\<rparr>\<rparr>"

text \<open>The same conversation after a message was inserted in front of the second one.\<close>

definition example_history_shifted :: "char chat_history_item list" where
  "example_history_shifted =
     [example_history ! 0,
      \<lparr>message = \<lparr>role = ''user'', content = StringContent ''hello'', msg_id = ''m-c''\<rparr>\<rparr>,
      example_history ! 1]"

text \<open>The conversation after its second message was replaced by another one.\<close>

definition example_history_replaced :: "char chat_history_item list" where
  "example_history_replaced =
     [example_history ! 0,
      \<lparr>message = \<lparr>role = ''user'', content = StringContent ''hello'', msg_id = ''m-c''\<rparr>\<rparr>]"

text \<open>The conversation with messages whose id is the empty string.\<close>

definition example_history_noid :: "char chat_history_item list" where
  "example_history_noid =
     [\<lparr>message = \<lparr>role = ''user'', content = StringContent ''find me'', msg_id = []\<rparr>\<rparr>,
      \<lparr>message = \<lparr>role = ''assistant'', content = StringContent ''ok, FIND ME again find'',
                  msg_id = []\<rparr>\<rparr>]"

text \<open>What holds of the first variant once both effects have run on a closed widget.\<close>

definition closed_inv_v1 :: "'c widget_state \<Rightarrow> bool" where
  "closed_inv_v1 s = (matches s = [] \<and> visibleHighlights s = [] \<and> \<not> pollArmed s)"

section \<open>The scan is the reference scan\<close>

subsection \<open>\<open>indexOf\<close> against the offset-by-offset walk\<close>

lemma prefix_iff_take: "prefix q ys \<longleftrightarrow> take (length q) ys = q"
  by (metis append_eq_conv_conj prefix_def take_is_prefix)

lemma first_occurrence_short:
  "q \<noteq> [] \<Longrightarrow> length ys < length q \<Longrightarrow> first_occurrence q ys = None"
proof (induction ys)
  case Nil
  then show ?case by simp
next
  case (Cons y ys)
  have "\<not> prefix q (y # ys)"
    using Cons.prems(2) prefix_length_le by fastforce
  then show ?case using Cons by simp
qed

lemma indexOf_short:
  assumes "q \<noteq> []" "length t < pos + length q"
  shows "indexOf t q pos = None"
proof -
  have "0 < length q" using assms(1) by simp
  then have "length t - pos < length q" using assms(2) by linarith
  then have "length (drop pos t) < length q" by simp
  then show ?thesis using assms(1) by (simp add: indexOf_def first_occurrence_short)
qed

lemma indexOf_step:
  assumes "q \<noteq> []" "pos + length q \<le> length t"
  shows "indexOf t q pos =
           (if take (length q) (drop pos t) = q then Some pos else indexOf t q (Suc pos))"
proof -
  from assms have lt: "pos < length t" by (cases q) auto
  then have d: "drop pos t = t ! pos # drop (Suc pos) t"
    by (simp add: Cons_nth_drop_Suc)
  show ?thesis
  proof (cases "take (length q) (drop pos t) = q")
    case True
    then have "prefix q (drop pos t)" by (simp add: prefix_iff_take)
    then have "first_occurrence q (drop pos t) = Some 0"
      using d by (metis first_occurrence.simps(2))
    with True lt show ?thesis by (simp add: indexOf_def min_def)
  next
    case False
    then have "\<not> prefix q (drop pos t)" by (simp add: prefix_iff_take)
    then have "first_occurrence q (drop pos t) = map_option Suc (first_occurrence q (drop (Suc pos) t))"
      using d by (metis first_occurrence.simps(2))
    with False lt show ?thesis
      by (cases "first_occurrence q (drop (Suc pos) t)") (auto simp add: indexOf_def min_def)
  qed
qed

lemma ref_occurrences_indexOf:
  "q \<noteq> [] \<Longrightarrow>
   ref_occurrences q t pos =
     (case indexOf t q pos of None \<Rightarrow> [] | Some i \<Rightarrow> i # ref_occurrences q t (i + length q))"
proof (induction q t pos rule: ref_occurrences.induct)
  case (1 q t i)
  show ?case
  proof (cases "length t < i + length q")
    case True
    then show ?thesis using 1(3) by (simp add: indexOf_short ref_occurrences.simps[of q t i])
  next
    case False
    then have le: "i + length q \<le> length t" by simp
    show ?thesis
    proof (cases "take (length q) (drop i t) = q")
      case True
      then show ?thesis using 1(3) le
        by (simp add: indexOf_step ref_occurrences.simps[of q t i])
    next
      case F2: False
      have "ref_occurrences q t i = ref_occurrences q t (Suc i)"
        using F2 False 1(3) by (simp add: ref_occurrences.simps[of q t i])
      also have "\<dots> = (case indexOf t q (Suc i) of None \<Rightarrow> [] | Some j \<Rightarrow> j # ref_occurrences q t (j + length q))"
        using 1(2) F2 False 1(3) by simp
      also have "indexOf t q (Suc i) = indexOf t q i"
        using F2 le 1(3) by (simp add: indexOf_step)
      finally show ?thesis .
    qed
  qed
qed

lemma indexOf_bounds:
  "q \<noteq> [] \<Longrightarrow> indexOf t q pos = Some i \<Longrightarrow> pos \<le> i \<and> i + length q \<le> length t"
proof (induction "Suc (length t) - pos" arbitrary: pos rule: less_induct)
  case less
  show ?case
  proof (cases "length t < pos + length q")
    case True
    then show ?thesis using less.prems by (simp add: indexOf_short)
  next
    case False
    then have le: "pos + length q \<le> length t" by simp
    show ?thesis
    proof (cases "take (length q) (drop pos t) = q")
      case True
      then show ?thesis using less.prems le by (simp add: indexOf_step)
    next
      case F2: False
      then have "indexOf t q (Suc pos) = Some i" using less.prems le by (simp add: indexOf_step)
      moreover have "Suc (length t) - Suc pos < Suc (length t) - pos" using le less.prems(1) by (cases q) auto
      ultimately have "Suc pos \<le> i \<and> i + length q \<le> length t"
        using less.hyps less.prems(1) by blast
      then show ?thesis by simp
    qed
  qed
qed


lemma scanMessage_ref:
  "q \<noteq> [] \<Longrightarrow>
   scanMessage t q hi mid pos rs =
     Some (rs @ map (\<lambda>k. \<lparr>index = k, messageIndex = Some hi, messageId = mid, overlayRectangle = None\<rparr>)
                  [length rs ..< length rs + length (ref_occurrences q t pos)])"
proof (induction "Suc (length t) - pos" arbitrary: pos rs rule: less_induct)
  case less
  show ?case
  proof (cases "indexOf t q pos")
    case None
    then show ?thesis using less.prems
      by (simp add: scanMessage.simps[of t q hi mid pos rs] ref_occurrences_indexOf[of q t pos])
  next
    case (Some i)
    from indexOf_bounds[OF less.prems Some] have b: "pos \<le> i" "i + length q \<le> length t" by auto
    have "0 < length q" using less.prems by simp
    with b have dec: "Suc (length t) - (i + length q) < Suc (length t) - pos" by linarith
    let ?rs' = "rs @ [\<lparr>index = length rs, messageIndex = Some hi, messageId = mid, overlayRectangle = None\<rparr>]"
    note ih = less.hyps[OF dec less.prems, of ?rs']
    have r: "ref_occurrences q t pos = i # ref_occurrences q t (i + length q)"
      using Some less.prems by (simp add: ref_occurrences_indexOf[of q t pos])
    have u: "[length rs ..< Suc (length rs + n)] = length rs # [Suc (length rs) ..< Suc (length rs + n)]" for n
      by (simp add: upt_conv_Cons)
    have "scanMessage t q hi mid pos rs = scanMessage t q hi mid (i + length q) ?rs'"
      using Some by (simp add: scanMessage.simps[of t q hi mid pos rs])
    then show ?thesis
      unfolding ih r by (simp add: u del: upt_Suc)
  qed
qed

lemma textContent_parts: "concat (map part_text ps) = ref_flatten (PartsContent ps)"
  by (induction "PartsContent ps" arbitrary: ps rule: ref_flatten.induct)
     (simp_all add: part_text_def)

lemma textContent_ref_flatten: "textContent c = ref_flatten c"
  by (cases c) (simp_all add: textContent_def textContent_parts)

lemma upt_occurrence_match:
  "map (\<lambda>k. \<lparr>index = k, messageIndex = Some i,
            messageId = (if withId then Some (msg_id (message item)) else None),
            overlayRectangle = None\<rparr>) [k ..< k + length offs]
   = map (occurrence_match withId) (enumerate k (map (\<lambda>off. (i, item, off)) offs))"
proof (induction offs arbitrary: k)
  case Nil
  show ?case by simp
next
  case (Cons a offs)
  have u: "[k ..< Suc (k + n)] = k # [Suc k ..< Suc (k + n)]" for n
    by (simp add: upt_conv_Cons)
  show ?case using Cons[of "Suc k"] by (simp add: u occurrence_match_def del: upt_Suc)
qed

lemma visitItem_ref:
  assumes "effective_query lc cfg \<noteq> []"
  shows "visitItem lc withId (caseSensitive cfg) (effective_query lc cfg) (i, item) rs =
    Some (rs @ map (occurrence_match withId)
       (enumerate (length rs) (map (\<lambda>off. (i, item, off)) (message_occurrences lc cfg item))))"
proof (cases "role (message item) = ''system''")
  case True
  then show ?thesis by (simp add: visitItem_def message_occurrences_def)
next
  case False
  have q: "ref_fold lc cfg (searchTerm cfg) = effective_query lc cfg"
    by (simp add: ref_fold_def effective_query_def)
  have t: "(if caseSensitive cfg then textContent (content (message item))
            else lc (textContent (content (message item))))
           = ref_fold lc cfg (ref_flatten (content (message item)))"
    by (simp add: ref_fold_def textContent_ref_flatten)
  show ?thesis using False
    by (simp add: visitItem_def Let_def message_occurrences_def q t
          scanMessage_ref[OF assms] upt_occurrence_match)
qed

lemma history_occurrences_Cons:
  "history_occurrences lc cfg n (item # history) =
     map (\<lambda>off. (n, item, off)) (message_occurrences lc cfg item)
       @ history_occurrences lc cfg (Suc n) history"
  by (simp add: history_occurrences_def)

lemma forEach_ref:
  assumes "effective_query lc cfg \<noteq> []"
  shows "forEach (visitItem lc withId (caseSensitive cfg) (effective_query lc cfg))
           (enumerate n history) rs =
         Some (rs @ map (occurrence_match withId)
                 (enumerate (length rs) (history_occurrences lc cfg n history)))"
proof (induction history arbitrary: n rs)
  case Nil
  show ?case by (simp add: history_occurrences_def)
next
  case (Cons item history)
  show ?case
    by (simp add: visitItem_ref[OF assms] Cons history_occurrences_Cons enumerate_append_eq)
qed

lemma scanHistory_ref:
  "effective_query lc cfg \<noteq> [] \<Longrightarrow>
   scanHistory lc withId history cfg =
     Some (map (occurrence_match withId) (enumerate 0 (history_occurrences lc cfg 0 history)))"
  by (simp add: scanHistory_def forEach_ref)

lemma ref_occurrences_empty_query: "ref_occurrences [] t i = []"
  by (simp add: ref_occurrences.simps)

lemma message_occurrences_empty_query:
  assumes "effective_query lc cfg = []"
  shows "message_occurrences lc cfg item = []"
proof -
  have "ref_fold lc cfg (searchTerm cfg) = []"
    using assms by (simp add: ref_fold_def effective_query_def)
  then show ?thesis
    by (simp add: message_occurrences_def ref_occurrences_empty_query)
qed

lemma history_occurrences_empty_query:
  "effective_query lc cfg = [] \<Longrightarrow> history_occurrences lc cfg n history = []"
  by (induction history arbitrary: n)
     (simp_all add: history_occurrences_Cons message_occurrences_empty_query,
      simp add: history_occurrences_def)

lemma matches_scrollToMatch: "matches (scrollToMatch virtuoso m s) = matches s"
  by (simp add: scrollToMatch_def Let_def split: option.splits)

lemma matches_reselect: "matches (reselect virtuoso term results s) = results"
  by (simp add: reselect_def Let_def matches_scrollToMatch split: option.splits list.splits)


text \<open>
  C1. For every history and every search configuration, \<open>refreshSearch\<close> returns and the
  match list it leaves in the state is the reference scan: messages of role "system" give
  no match; the content of every other message is flattened (a string as it is, a part
  array to the texts of its text parts in order); without case sensitivity the flattened
  text and the query are lower-cased; in each message the non-overlapping occurrences of
  the query are recorded from left to right, the scan resuming right after each matched
  span; the messages are taken in history order and the ordinal of a match is its rank in
  the whole scan. For the empty query both sides are the empty list.
\<close>

theorem refreshSearch_matches_reference:
  "\<exists>s'. refreshSearch lc virtuoso history cfg s = Some s'
        \<and> matches s' = ref_matches lc cfg history"
proof (cases "effective_query lc cfg = []")
  case True
  then show ?thesis
    by (simp add: refreshSearch_def ref_matches_def history_occurrences_empty_query)
next
  case False
  then show ?thesis
    by (simp add: refreshSearch_def scanHistory_ref Let_def matches_reselect ref_matches_def)
qed

text \<open>The case-sensitive search of the example conversation passes over "FIND".\<close>

lemma example_case_sensitive:
  "ref_matches ascii_toLowerCase (example_config ''find'' True) example_history
     = [example_match 0 0 ''m-a'', example_match 1 1 ''m-b'']"
  by code_simp

section \<open>Navigation without a target\<close>

text \<open>
  C9. In every state whose match list is empty or which has no current match, \<open>next()\<close>
  and \<open>previous()\<close> return the state as it is: the current match is unchanged and no
  scroll request is added.
\<close>

theorem navigation_noop:
  assumes "matches s = [] \<or> currentMatch s = None"
  shows "nextMatch virtuoso s = Returned s \<and> previousMatch virtuoso s = Returned s"
  using assms by (auto simp add: nextMatch_def previousMatch_def split: option.splits)

theorem navigation_noop_witness:
  "(matches (initial_state :: char widget_state) = [] \<or> currentMatch (initial_state :: char widget_state) = None)
   \<and> nextMatch True (initial_state :: char widget_state) = Returned initial_state
   \<and> previousMatch True (initial_state :: char widget_state) = Returned initial_state
   \<and> scrollRequests (state_of (nextMatch True (initial_state :: char widget_state))) = []"
  using navigation_noop [of "initial_state :: char widget_state" True]
  by (simp add: initial_state_def)

section \<open>The empty query\<close>

text \<open>
  C6. For every history and every configuration whose query is empty, \<open>refreshSearch\<close>
  returns without an error, and the state it returns is the old one with the match list
  emptied: the current match, the remembered term, the scroll requests and the pending
  highlight refreshes are untouched. (The empty string is lower-cased to itself.)
\<close>

theorem empty_query_short_circuit:
  assumes "lc [] = []" and "searchTerm cfg = []"
  shows "refreshSearch lc virtuoso history cfg s = Some (s\<lparr>matches := []\<rparr>)"
  using assms by (simp add: refreshSearch_def effective_query_def)

theorem empty_query_short_circuit_witness:
  "ascii_toLowerCase [] = [] \<and> searchTerm (example_config [] False) = []
   \<and> refreshSearch ascii_toLowerCase True example_history (example_config [] False) example_state
       = Some (example_state\<lparr>matches := []\<rparr>)"
  using empty_query_short_circuit [of ascii_toLowerCase "example_config [] False" True example_history example_state]
  by (simp add: ascii_toLowerCase_def example_config_def)

section \<open>Case-fold equivalence\<close>

lemma visitItem_lowered:
  "visitItem lc withId True q (i, lowered_item lc item) rs = visitItem lc withId False q (i, item) rs"
  by (simp add: visitItem_def lowered_item_def textContent_ref_flatten Let_def)

lemma forEach_lowered:
  "forEach (visitItem lc withId True q) (enumerate n (lowered_history lc history)) rs
   = forEach (visitItem lc withId False q) (enumerate n history) rs"
proof (induction history arbitrary: n rs)
  case Nil
  show ?case by (simp add: lowered_history_def)
next
  case (Cons item history)
  then show ?case
    by (simp add: lowered_history_def visitItem_lowered split: option.splits)
qed

lemma scanHistory_lowered:
  assumes "\<not> caseSensitive cfg" "caseSensitive cfg'" "searchTerm cfg' = lc (searchTerm cfg)"
  shows "scanHistory lc withId (lowered_history lc history) cfg' = scanHistory lc withId history cfg"
  using assms by (simp add: scanHistory_def effective_query_def forEach_lowered)

lemma refreshSearch_returns:
  "\<exists>s'. refreshSearch lc virtuoso history cfg s = Some s'"
  by (cases "effective_query lc cfg = []") (simp_all add: refreshSearch_def scanHistory_ref Let_def)

lemma refreshSearch_matches:
  "refreshSearch lc virtuoso history cfg s = Some s' \<Longrightarrow>
   matches s' = (if effective_query lc cfg = [] then [] else the (scanHistory lc True history cfg))"
  by (auto simp add: refreshSearch_def Let_def matches_reselect split: if_splits option.splits)

text \<open>
  C5. For every history \<open>H\<close> and query \<open>q\<close>, the search without case sensitivity gives the
  same match list (in particular the same count, ordinals and message indices) as the
  case-sensitive search for the lower-cased \<open>q\<close> over the history in which the flattened
  text of every message is lower-cased.
\<close>

theorem case_fold_equivalence:
  "\<exists>a b. refreshSearch lc virtuoso history
              \<lparr>searchTerm = q, caseSensitive = False, useRegex = r\<rparr> s = Some a
        \<and> refreshSearch lc virtuoso' (lowered_history lc history)
              \<lparr>searchTerm = lc q, caseSensitive = True, useRegex = r'\<rparr> s' = Some b
        \<and> matches a = matches b
        \<and> length (matches a) = length (matches b)
        \<and> map index (matches a) = map index (matches b)
        \<and> map messageIndex (matches a) = map messageIndex (matches b)"
proof -
  let ?cfg = "\<lparr>searchTerm = q, caseSensitive = False, useRegex = r\<rparr>"
  let ?cfg' = "\<lparr>searchTerm = lc q, caseSensitive = True, useRegex = r'\<rparr>"
  obtain a where a: "refreshSearch lc virtuoso history ?cfg s = Some a"
    using refreshSearch_returns by blast
  obtain b where b: "refreshSearch lc virtuoso' (lowered_history lc history) ?cfg' s' = Some b"
    using refreshSearch_returns by blast
  have q: "effective_query lc ?cfg' = effective_query lc ?cfg"
    by (simp add: effective_query_def)
  have "scanHistory lc True (lowered_history lc history) ?cfg' = scanHistory lc True history ?cfg"
    by (rule scanHistory_lowered) simp_all
  then have "matches a = matches b"
    using refreshSearch_matches[OF a] refreshSearch_matches[OF b] q by simp
  then show ?thesis using a b by simp
qed

section \<open>The two variants of the scan\<close>

lemma matches_reselect_v1: "matches (reselect_v1 virtuoso scrollTo term results s) = results"
  by (simp add: reselect_v1_def Let_def matches_scrollToMatch split: option.splits list.splits)

lemma occurrence_match_fields:
  "index (occurrence_match withId p) = fst p"
  "messageIndex (occurrence_match withId p) = Some (fst (snd p))"
  "messageId (occurrence_match withId p) =
     (if withId then Some (msg_id (message (fst (snd (snd p))))) else None)"
  by (simp_all add: occurrence_match_def split: prod.splits)

lemma refreshSearch_scan:
  "\<exists>s'. refreshSearch lc virtuoso history cfg s = Some s'
        \<and> matches s' = map (occurrence_match True) (enumerate 0 (history_occurrences lc cfg 0 history))"
proof (cases "effective_query lc cfg = []")
  case True
  then show ?thesis
    by (simp add: refreshSearch_def history_occurrences_empty_query)
next
  case False
  then show ?thesis
    by (simp add: refreshSearch_def scanHistory_ref Let_def matches_reselect)
qed

lemma refreshSearch_v1_scan:
  "\<exists>s'. refreshSearch_v1 lc virtuoso history cfg scrollTo s = Some s'
        \<and> matches s' = map (occurrence_match False) (enumerate 0 (history_occurrences lc cfg 0 history))"
proof (cases "effective_query lc cfg = []")
  case True
  then show ?thesis
    by (simp add: refreshSearch_v1_def history_occurrences_empty_query)
next
  case False
  then show ?thesis
    by (simp add: refreshSearch_v1_def scanHistory_ref matches_reselect_v1)
qed

lemma history_occurrences_set:
  assumes "(i, item, off) \<in> set (history_occurrences lc cfg n history)"
  shows "n \<le> i \<and> i < n + length history \<and> history ! (i - n) = item
         \<and> off \<in> set (message_occurrences lc cfg item)"
  using assms by (auto simp add: history_occurrences_def in_set_enumerate_eq)

lemma enumerate_snd_in_set: "p \<in> set (enumerate n xs) \<Longrightarrow> snd p \<in> set xs"
  by (metis imageI list.set_map map_snd_enumerate)

lemma occurrence_match_id_nth:
  assumes "p \<in> set (enumerate 0 (history_occurrences lc cfg 0 history))"
  shows "messageId (occurrence_match True p)
         = Some (msg_id (message (history ! the (messageIndex (occurrence_match True p)))))"
proof -
  obtain k i item off where p: "p = (k, i, item, off)" by (cases p) auto
  then have "(i, item, off) \<in> set (history_occurrences lc cfg 0 history)"
    using enumerate_snd_in_set[OF assms] by simp
  from history_occurrences_set[OF this] have "history ! i = item" by simp
  then show ?thesis by (simp add: p occurrence_match_def)
qed

text \<open>
  C10. For every history and configuration both variants of \<open>refreshSearch\<close> return, and
  their match lists have the same length and agree position by position on the ordinal
  and on the message index. The first variant leaves \<open>messageId\<close> undefined; in the second
  every match carries the id of the message at its message index.
\<close>

theorem variants_agree:
  "\<exists>s1 s2. refreshSearch_v1 lc virtuoso history cfg scrollTo a = Some s1
          \<and> refreshSearch lc virtuoso' history cfg b = Some s2
          \<and> length (matches s1) = length (matches s2)
          \<and> map index (matches s1) = map index (matches s2)
          \<and> map messageIndex (matches s1) = map messageIndex (matches s2)
          \<and> map messageId (matches s1) = replicate (length (matches s1)) None
          \<and> map messageId (matches s2) =
                map (\<lambda>m. Some (msg_id (message (history ! the (messageIndex m))))) (matches s2)"
proof -
  let ?occ = "enumerate 0 (history_occurrences lc cfg 0 history)"
  obtain s1 where s1: "refreshSearch_v1 lc virtuoso history cfg scrollTo a = Some s1"
    "matches s1 = map (occurrence_match False) ?occ"
    using refreshSearch_v1_scan by blast
  obtain s2 where s2: "refreshSearch lc virtuoso' history cfg b = Some s2"
    "matches s2 = map (occurrence_match True) ?occ"
    using refreshSearch_scan by blast
  have len: "length (matches s1) = length (matches s2)"
    by (simp add: s1 s2)
  have idx: "map index (matches s1) = map index (matches s2)"
    by (simp add: s1 s2 occurrence_match_fields)
  have mi: "map messageIndex (matches s1) = map messageIndex (matches s2)"
    by (simp add: s1 s2 occurrence_match_fields)
  have "messageId \<circ> occurrence_match False = (\<lambda>p. None :: 'a list option)"
    by (simp add: fun_eq_iff occurrence_match_fields)
  then have none: "map messageId (matches s1) = replicate (length (matches s1)) None"
    by (simp add: s1 map_replicate_const)
  have ids: "map messageId (matches s2) =
      map (\<lambda>m. Some (msg_id (message (history ! the (messageIndex m))))) (matches s2)"
    unfolding s2 map_map by (rule map_cong) (simp_all add: occurrence_match_id_nth)
  show ?thesis using s1(1) s2(1) len idx mi none ids by blast
qed

section \<open>The order of the match list\<close>

lemma ref_occurrences_sound:
  "x \<in> set (ref_occurrences q t pos) \<Longrightarrow>
     pos \<le> x \<and> q \<noteq> [] \<and> take (length q) (drop x t) = q"
proof (induction q t pos rule: ref_occurrences.induct)
  case (1 q t i)
  show ?case
  proof (cases "q = [] \<or> length t < i + length q")
    case True
    then show ?thesis using 1(3) by (simp add: ref_occurrences.simps[of q t i])
  next
    case False
    show ?thesis
    proof (cases "take (length q) (drop i t) = q")
      case True
      with False 1(3) have "x = i \<or> x \<in> set (ref_occurrences q t (i + length q))"
        by (simp add: ref_occurrences.simps[of q t i])
      then show ?thesis
      proof
        assume "x = i"
        then show ?thesis using True False by simp
      next
        assume "x \<in> set (ref_occurrences q t (i + length q))"
        from 1(1)[OF False True this] show ?thesis by simp
      qed
    next
      case F2: False
      with False 1(3) have "x \<in> set (ref_occurrences q t (Suc i))"
        by (simp add: ref_occurrences.simps[of q t i])
      from 1(2)[OF False F2 this] show ?thesis by simp
    qed
  qed
qed

lemma ref_occurrences_sorted: "sorted_wrt (<) (ref_occurrences q t pos)"
proof (induction q t pos rule: ref_occurrences.induct)
  case (1 q t i)
  show ?case
  proof (cases "q = [] \<or> length t < i + length q")
    case True
    then show ?thesis by (simp add: ref_occurrences.simps[of q t i])
  next
    case False
    then have pos: "0 < length q" by simp
    show ?thesis
    proof (cases "take (length q) (drop i t) = q")
      case True
      have "\<forall>x\<in>set (ref_occurrences q t (i + length q)). i < x"
      proof
        fix x assume "x \<in> set (ref_occurrences q t (i + length q))"
        then have "i + length q \<le> x" using ref_occurrences_sound by blast
        with pos show "i < x" by linarith
      qed
      then show ?thesis using 1(1)[OF False True] False True
        by (simp add: ref_occurrences.simps[of q t i])
    next
      case F2: False
      then show ?thesis using 1(2)[OF False F2] False
        by (simp add: ref_occurrences.simps[of q t i])
    qed
  qed
qed

lemma history_occurrences_sorted:
  "sorted_wrt occurrence_less (history_occurrences lc cfg n history)"
proof (induction history arbitrary: n)
  case Nil
  show ?case by (simp add: history_occurrences_def)
next
  case (Cons item history)
  have here: "sorted_wrt occurrence_less
                (map (\<lambda>off. (n, item, off)) (message_occurrences lc cfg item))"
  proof -
    have "sorted_wrt (<) (message_occurrences lc cfg item)"
      by (simp add: message_occurrences_def ref_occurrences_sorted)
    then show ?thesis
      by (simp add: sorted_wrt_map occurrence_less_def)
  qed
  have later: "\<forall>a \<in> set (map (\<lambda>off. (n, item, off)) (message_occurrences lc cfg item)).
               \<forall>b \<in> set (history_occurrences lc cfg (Suc n) history). occurrence_less a b"
  proof (intro ballI)
    fix a b
    assume a: "a \<in> set (map (\<lambda>off. (n, item, off)) (message_occurrences lc cfg item))"
       and b: "b \<in> set (history_occurrences lc cfg (Suc n) history)"
    obtain i it off where bb: "b = (i, it, off)" by (cases b) auto
    from history_occurrences_set[OF b[unfolded bb]] have "Suc n \<le> i" by simp
    moreover from a have "fst a = n" by auto
    ultimately show "occurrence_less a b" by (simp add: occurrence_less_def bb)
  qed
  show ?case
    by (simp add: history_occurrences_Cons sorted_wrt_append here Cons later del: set_map)
qed

lemma history_occurrences_genuine:
  assumes "p \<in> set (history_occurrences lc cfg 0 history)"
  shows "is_occurrence lc cfg history p"
proof -
  obtain i item off where p: "p = (i, item, off)" by (cases p) auto
  from history_occurrences_set[OF assms[unfolded p]]
  have i: "i < length history" "history ! i = item"
    and off: "off \<in> set (message_occurrences lc cfg item)" by simp_all
  from off have role: "role (message item) \<noteq> ''system''"
    by (auto simp add: message_occurrences_def split: if_splits)
  with off have "off \<in> set (ref_occurrences (ref_fold lc cfg (searchTerm cfg))
                     (ref_fold lc cfg (ref_flatten (content (message item)))) 0)"
    by (simp add: message_occurrences_def)
  from ref_occurrences_sound[OF this] show ?thesis
    using i role by (simp add: is_occurrence_def p Let_def)
qed

lemma ordinals_ok_scan: "ordinals_ok (map (occurrence_match withId) (enumerate 0 occ))"
proof -
  show ?thesis
    by (simp add: ordinals_ok_def occurrence_match_fields comp_def)
qed

lemma ordinals_ok_nth: "ordinals_ok ms \<Longrightarrow> i < length ms \<Longrightarrow> index (ms ! i) = i"
  by (metis add_0 length_map nth_map nth_upt ordinals_ok_def)

text \<open>
  C7. Every match list that \<open>refreshSearch\<close> produces lists the occurrences of the query in
  the order of (message index, offset in the message): the list is the image of the
  occurrence list, whose entries are genuine occurrences (the message stands at that index,
  the query stands at that offset of its folded text) and which is strictly ascending in
  the lexicographic order of message index and offset; and the match at position \<open>i\<close> has
  ordinal \<open>i\<close>. A match does not record its offset, so the offsets are those of the
  occurrence list.
\<close>

theorem matches_ordered:
  "\<exists>s'. refreshSearch lc virtuoso history cfg s = Some s'
     \<and> matches s' = map (occurrence_match True) (enumerate 0 (history_occurrences lc cfg 0 history))
     \<and> map messageIndex (matches s') = map (\<lambda>p. Some (fst p)) (history_occurrences lc cfg 0 history)
     \<and> sorted_wrt occurrence_less (history_occurrences lc cfg 0 history)
     \<and> (\<forall>p \<in> set (history_occurrences lc cfg 0 history). is_occurrence lc cfg history p)
     \<and> (\<forall>i < length (matches s'). index (matches s' ! i) = i)"
proof -
  let ?occ = "history_occurrences lc cfg 0 history"
  obtain s' where s': "refreshSearch lc virtuoso history cfg s = Some s'"
    "matches s' = map (occurrence_match True) (enumerate 0 ?occ)"
    using refreshSearch_scan by blast
  have "map messageIndex (matches s') = map (\<lambda>p. Some (fst (snd p))) (enumerate 0 ?occ)"
    by (simp add: s' occurrence_match_fields comp_def)
  also have "\<dots> = map (\<lambda>p. Some (fst p)) (map snd (enumerate 0 ?occ))"
    by (simp add: comp_def del: map_snd_enumerate)
  finally have mi: "map messageIndex (matches s') = map (\<lambda>p. Some (fst p)) ?occ"
    by (simp only: map_snd_enumerate)
  have "ordinals_ok (matches s')"
    unfolding s'(2) by (rule ordinals_ok_scan)
  then have ord: "\<forall>i < length (matches s'). index (matches s' ! i) = i"
    using ordinals_ok_nth by blast
  show ?thesis
    using s' mi ord history_occurrences_sorted history_occurrences_genuine by blast
qed


lemma example_state_reached:
  "refreshSearch ascii_toLowerCase True example_history (example_config ''find'' False) initial_state
     = Some example_state"
  by code_simp

lemma example_occurrences:
  "history_occurrences ascii_toLowerCase (example_config ''find'' False) 0 example_history
     = [(0, example_history ! 0, 0), (1, example_history ! 1, 4), (1, example_history ! 1, 18)]"
  by code_simp

theorem matches_ordered_witness:
  "(1, example_history ! 1, 18) \<in> set (history_occurrences ascii_toLowerCase
        (example_config ''find'' False) 0 example_history)
   \<and> is_occurrence ascii_toLowerCase (example_config ''find'' False) example_history
        (1, example_history ! 1, 18)
   \<and> 2 < length (matches example_state) \<and> index (matches example_state ! 2) = 2
   \<and> occurrence_less (1, example_history ! 1, 4) (1, example_history ! 1, 18)"
proof -
  let ?cfg = "example_config ''find'' False"
  let ?occ = "history_occurrences ascii_toLowerCase ?cfg 0 example_history"
  from matches_ordered [of ascii_toLowerCase True example_history ?cfg initial_state]
  obtain s' where s': "refreshSearch ascii_toLowerCase True example_history ?cfg initial_state = Some s'"
    and all: "\<forall>p \<in> set ?occ. is_occurrence ascii_toLowerCase ?cfg example_history p"
    and ord': "\<forall>i < length (matches s'). index (matches s' ! i) = i"
    and srt: "sorted_wrt occurrence_less ?occ"
    by blast
  from s' have "s' = example_state" by (simp add: example_state_reached)
  with ord' have ord: "\<forall>i < length (matches example_state). index (matches example_state ! i) = i"
    by simp
  have mem: "(1, example_history ! 1, 18) \<in> set ?occ"
    by (simp add: example_occurrences)
  have len: "2 < length (matches example_state)"
    by (simp add: example_state_def)
  from srt have "occurrence_less (1, example_history ! 1, 4) (1, example_history ! 1, 18)"
    by (simp add: example_occurrences)
  with all mem ord len show ?thesis by blast
qed

section \<open>The navigation cycle\<close>

lemma refreshSearch_ordinals_ok:
  assumes "refreshSearch lc virtuoso history cfg s = Some s'"
  shows "ordinals_ok (matches s')"
proof -
  from refreshSearch_scan[of lc virtuoso history cfg s] assms
  have "matches s' = map (occurrence_match True) (enumerate 0 (history_occurrences lc cfg 0 history))"
    by auto
  then show ?thesis by (simp only: ordinals_ok_scan)
qed

lemma currentMatch_scrollToMatch: "currentMatch (scrollToMatch virtuoso m s) = Some m"
  by (simp add: scrollToMatch_def Let_def split: option.splits)

lemma in_set_ordinal:
  assumes "ordinals_ok ms" "cm \<in> set ms"
  shows "index cm < length ms \<and> ms ! index cm = cm"
proof -
  from assms(2) obtain i where i: "i < length ms" "ms ! i = cm"
    by (auto simp add: in_set_conv_nth)
  with ordinals_ok_nth[OF assms(1) i(1)] show ?thesis by simp
qed

lemma nextMatch_at:
  assumes "ordinals_ok ms" "matches s = ms" "i < length ms" "currentMatch s = Some (ms ! i)"
  shows "\<exists>s'. nextMatch virtuoso s = Returned s' \<and> matches s' = ms
            \<and> currentMatch s' = Some (ms ! (Suc i mod length ms))"
proof -
  have ix: "index (ms ! i) = i" using ordinals_ok_nth assms(1,3) by blast
  have "0 < length ms" using assms(3) by linarith
  then have lt: "Suc i mod length ms < length ms" by (rule mod_less_divisor)
  have ne: "ms \<noteq> []" using assms(3) by auto
  have "nextMatch virtuoso s = Returned (scrollToMatch virtuoso (ms ! (Suc i mod length ms)) s)"
    using ix lt ne by (simp add: nextMatch_def scrollToNth_def js_nth_def assms(2,4))
  then show ?thesis
    by (simp add: matches_scrollToMatch currentMatch_scrollToMatch assms(2))
qed

lemma previousMatch_at:
  assumes "ordinals_ok ms" "matches s = ms" "i < length ms" "currentMatch s = Some (ms ! i)"
  shows "\<exists>s'. previousMatch virtuoso s = Returned s' \<and> matches s' = ms
            \<and> currentMatch s' = Some (ms ! (if i = 0 then length ms - 1 else i - 1))"
proof -
  let ?j = "if i = 0 then length ms - 1 else i - 1"
  have ix: "index (ms ! i) = i" using ordinals_ok_nth assms(1,3) by blast
  have lt: "?j < length ms" using assms(3) by auto
  have ne: "ms \<noteq> []" using assms(3) by auto
  have "js_nth ms ?j = Some (ms ! ?j)" using lt by (simp only: js_nth_def if_True)
  then have "scrollToNth virtuoso ?j s = Returned (scrollToMatch virtuoso (ms ! ?j) s)"
    by (simp only: scrollToNth_def assms(2) option.case)
  then have "previousMatch virtuoso s = Returned (scrollToMatch virtuoso (ms ! ?j) s)"
    using ix ne by (cases "i = 0") (simp_all add: previousMatch_def assms(2,4))
  then show ?thesis
    by (simp add: matches_scrollToMatch currentMatch_scrollToMatch assms(2))
qed

lemma nextMatch_times_at:
  assumes "ordinals_ok ms" "matches s = ms" "i < length ms" "currentMatch s = Some (ms ! i)"
  shows "\<exists>s'. nextMatch_times k virtuoso s = Returned s' \<and> matches s' = ms
            \<and> currentMatch s' = Some (ms ! ((i + k) mod length ms))"
  using assms(2-4)
proof (induction k arbitrary: s i)
  case 0
  then show ?case by simp
next
  case (Suc k)
  from nextMatch_at[OF assms(1) Suc.prems, of virtuoso] obtain s1 where
    s1: "nextMatch virtuoso s = Returned s1" "matches s1 = ms"
        "currentMatch s1 = Some (ms ! (Suc i mod length ms))"
    by blast
  have "0 < length ms" using Suc.prems(2) by linarith
  then have lt: "Suc i mod length ms < length ms" by (rule mod_less_divisor)
  from Suc.IH[OF s1(2) lt s1(3)] obtain s' where
    s': "nextMatch_times k virtuoso s1 = Returned s'" "matches s' = ms"
        "currentMatch s' = Some (ms ! ((Suc i mod length ms + k) mod length ms))"
    by blast
  have "(Suc i mod length ms + k) mod length ms = (i + Suc k) mod length ms"
    by (simp add: mod_add_left_eq)
  with s' show ?case by (simp add: s1(1))
qed

text \<open>
  The handlers alone, with no re-index between the calls. Let the match list number its
  matches by position (as every list of the indexer does) and let the current match be one
  of its elements. Then \<open>next()\<close> moves to the match at ordinal plus one modulo the length;
  \<open>next()\<close> applied as many times as the list is long comes back to the original match;
  \<open>previous()\<close> undoes \<open>next()\<close> and \<open>next()\<close> undoes \<open>previous()\<close>; and \<open>previous()\<close> moves
  from ordinal 0 to the last match, otherwise one back.
\<close>

lemma handlers_cycle:
  assumes "ordinals_ok (matches s)" and "currentMatch s = Some cm" and "cm \<in> set (matches s)"
  shows "(\<exists>s'. nextMatch virtuoso s = Returned s' \<and> matches s' = matches s
            \<and> currentMatch s' = Some (matches s ! ((index cm + 1) mod length (matches s))))
       \<and> (\<exists>s'. nextMatch_times (length (matches s)) virtuoso s = Returned s'
            \<and> matches s' = matches s \<and> currentMatch s' = Some cm)
       \<and> (\<exists>a b. nextMatch virtuoso s = Returned a \<and> previousMatch virtuoso a = Returned b
            \<and> matches b = matches s \<and> currentMatch b = Some cm)
       \<and> (\<exists>a b. previousMatch virtuoso s = Returned a \<and> nextMatch virtuoso a = Returned b
            \<and> matches b = matches s \<and> currentMatch b = Some cm)
       \<and> (\<exists>s'. previousMatch virtuoso s = Returned s' \<and> matches s' = matches s
            \<and> currentMatch s' = Some (matches s !
                  (if index cm = 0 then length (matches s) - 1 else index cm - 1)))"
proof -
  define ms where "ms = matches s"
  define n where "n = length ms"
  define i where "i = index cm"
  have ok: "ordinals_ok ms" and m: "matches s = ms" using assms(1) by (simp_all add: ms_def)
  from in_set_ordinal[OF assms(1,3)] have i: "i < n" "ms ! i = cm"
    by (simp_all add: ms_def n_def i_def)
  have iL: "i < length ms" using i(1) by (simp add: n_def)
  have cur: "currentMatch s = Some (ms ! i)" using assms(2) i by simp
  define nx where "nx = Suc i mod n"
  define pv where "pv = (if i = 0 then n - 1 else i - 1)"
  have "0 < n" using i(1) by linarith
  then have nxlt: "nx < length ms" unfolding nx_def n_def by (rule mod_less_divisor)
  have pvlt: "pv < length ms" using i(1) by (auto simp add: pv_def n_def)
  from nextMatch_at[OF ok m iL cur, of virtuoso] obtain a where
    a: "nextMatch virtuoso s = Returned a" "matches a = ms" "currentMatch a = Some (ms ! nx)"
    by (auto simp add: nx_def n_def)
  from previousMatch_at[OF ok m iL cur, of virtuoso] obtain p where
    p: "previousMatch virtuoso s = Returned p" "matches p = ms" "currentMatch p = Some (ms ! pv)"
    by (auto simp add: pv_def n_def)
  have c1: "\<exists>s'. nextMatch virtuoso s = Returned s' \<and> matches s' = ms
            \<and> currentMatch s' = Some (ms ! ((i + 1) mod n))"
    using a by (simp add: nx_def)
  have c2: "\<exists>s'. nextMatch_times n virtuoso s = Returned s'
            \<and> matches s' = ms \<and> currentMatch s' = Some cm"
    using nextMatch_times_at[OF ok m iL cur, of n virtuoso] i by (simp add: n_def)
  have bck: "(if nx = 0 then length ms - 1 else nx - 1) = i"
  proof (cases "Suc i = n")
    case True
    then show ?thesis by (auto simp add: nx_def n_def)
  next
    case False
    with i(1) have "Suc i < n" by simp
    then show ?thesis by (simp add: nx_def n_def)
  qed
  from previousMatch_at[OF ok a(2) nxlt a(3), of virtuoso] obtain b where
    b: "previousMatch virtuoso a = Returned b" "matches b = ms" "currentMatch b = Some (ms ! i)"
    unfolding bck by blast
  have c3: "\<exists>a b. nextMatch virtuoso s = Returned a \<and> previousMatch virtuoso a = Returned b
            \<and> matches b = ms \<and> currentMatch b = Some cm"
    using a(1) b i(2) by auto
  have forth: "Suc pv mod length ms = i"
  proof (cases "i = 0")
    case True
    with i(1) show ?thesis by (simp add: pv_def n_def)
  next
    case False
    with i(1) show ?thesis by (simp add: pv_def n_def)
  qed
  from nextMatch_at[OF ok p(2) pvlt p(3), of virtuoso] obtain c where
    c: "nextMatch virtuoso p = Returned c" "matches c = ms" "currentMatch c = Some (ms ! i)"
    unfolding forth by blast
  have c4: "\<exists>a b. previousMatch virtuoso s = Returned a \<and> nextMatch virtuoso a = Returned b
            \<and> matches b = ms \<and> currentMatch b = Some cm"
    using p(1) c i(2) by auto
  have c5: "\<exists>s'. previousMatch virtuoso s = Returned s' \<and> matches s' = ms
            \<and> currentMatch s' = Some (ms ! (if i = 0 then n - 1 else i - 1))"
    using p by (simp add: pv_def)
  from c1 c2 c3 c4 c5 show ?thesis
    unfolding ms_def n_def i_def by blast
qed

lemma handlers_cycle_example:
  "ordinals_ok (matches example_state)
   \<and> currentMatch example_state = Some (example_match 0 0 ''m-a'')
   \<and> example_match 0 0 ''m-a'' \<in> set (matches example_state)
   \<and> (\<exists>s'. nextMatch_times 3 True example_state = Returned s'
          \<and> currentMatch s' = Some (example_match 0 0 ''m-a''))
   \<and> (\<exists>s'. previousMatch True example_state = Returned s'
          \<and> currentMatch s' = Some (example_match 2 1 ''m-b''))"
proof -
  have h: "ordinals_ok (matches example_state)"
    "currentMatch example_state = Some (example_match 0 0 ''m-a'')"
    "example_match 0 0 ''m-a'' \<in> set (matches example_state)"
    by (simp_all add: example_state_def ordinals_ok_def example_match_def upt_rec)
  have len: "length (matches example_state) = 3"
    and idx: "index (example_match 0 0 ''m-a'') = 0"
    and lst: "matches example_state ! 2 = example_match 2 1 ''m-b''"
    by (simp_all add: example_state_def example_match_def)
  from handlers_cycle [OF h, of True] h show ?thesis
    by (auto simp add: len idx lst)
qed

text \<open>
  C4. In the second variant \<open>currentMatch\<close> is a dependency of \<open>refreshSearch\<close> and
  \<open>refreshSearch\<close> one of the search effect, so every \<open>next()\<close> that changes the current
  match is followed by a re-index with the unchanged term, which moves the current match to
  the first match of its message. On the example conversation (three matches, the current
  one at ordinal 0) three calls of \<open>next()\<close>, each with its re-index, end on ordinal 1 and
  not on ordinal 0; after the second call the current match is at ordinal 1 as well, so
  ordinal 2 is never kept.
\<close>

theorem navigation_cycle_reindexed:
  "currentMatch example_state = Some (example_match 0 0 ''m-a'')
   \<and> length (matches example_state) = 3
   \<and> run ascii_toLowerCase True True False
        [PressNext, SearchEffect example_history (example_config ''find'' False),
         PressNext, SearchEffect example_history (example_config ''find'' False),
         PressNext, SearchEffect example_history (example_config ''find'' False)]
        example_state
     = Some (example_state\<lparr>currentMatch := Some (example_match 1 1 ''m-b''),
               scrollRequests := [0, 1, 1, 1], highlightTimeouts := 4\<rparr>)
   \<and> run ascii_toLowerCase True True False
        [PressNext, SearchEffect example_history (example_config ''find'' False),
         PressNext, SearchEffect example_history (example_config ''find'' False)]
        example_state
     = Some (example_state\<lparr>currentMatch := Some (example_match 1 1 ''m-b''),
               scrollRequests := [0, 1, 1], highlightTimeouts := 3\<rparr>)"
  by code_simp

section \<open>Re-selection with an unchanged term\<close>

lemma effective_query_nonempty:
  assumes "lower_keeps_empty lc" "searchTerm cfg \<noteq> []"
  shows "effective_query lc cfg \<noteq> []"
  using assms by (simp add: effective_query_def lower_keeps_empty_def)

lemma lower_keeps_empty_ascii: "lower_keeps_empty ascii_toLowerCase"
  by (simp add: lower_keeps_empty_def ascii_toLowerCase_def)

lemma prevSearchTerm_scrollToMatch: "prevSearchTerm (scrollToMatch virtuoso m s) = prevSearchTerm s"
  by (simp add: scrollToMatch_def Let_def split: option.splits)

lemma prevSearchTerm_reselect:
  "prevSearchTerm (reselect virtuoso term results s) = term"
  by (simp add: reselect_def Let_def prevSearchTerm_scrollToMatch split: option.splits list.splits)

lemma refreshSearch_stores_term:
  assumes "effective_query lc cfg \<noteq> []"
    and "refreshSearch lc virtuoso history cfg s = Some s'"
  shows "prevSearchTerm s' = searchTerm cfg"
  using assms
  by (auto simp add: refreshSearch_def Let_def prevSearchTerm_reselect split: option.splits)

lemma prevSearchTerm_scrollToNth:
  "prevSearchTerm (state_of (scrollToNth virtuoso j s)) = prevSearchTerm s"
  by (simp add: scrollToNth_def prevSearchTerm_scrollToMatch split: option.splits)

lemma prevSearchTerm_nextMatch:
  "prevSearchTerm (state_of (nextMatch virtuoso s)) = prevSearchTerm s"
  by (simp add: nextMatch_def prevSearchTerm_scrollToNth split: option.splits)

lemma prevSearchTerm_previousMatch:
  "prevSearchTerm (state_of (previousMatch virtuoso s)) = prevSearchTerm s"
  by (simp add: previousMatch_def prevSearchTerm_scrollToNth split: option.splits)

lemma prevSearchTerm_step:
  assumes "\<not> is_reindex ev" and "step lc virtuoso is_open disabled ev s = Some s'"
  shows "prevSearchTerm s' = prevSearchTerm s"
proof (cases ev)
  case (SearchEffect history cfg)
  with assms(1) show ?thesis by simp
next
  case (HighlightTimeout found)
  with assms(2) show ?thesis
    by (auto simp add: step_def highlightTimeoutFires_def updateHighlights_def split: if_splits)
next
  case (ContainerClick found)
  with assms(2) show ?thesis
    by (auto simp add: step_def updateHighlights_def split: if_splits)
next
  case (RunHighlightUpdate found)
  with assms(2) show ?thesis by (auto simp add: step_def updateHighlights_def)
next
  case PressNext
  with assms(2) show ?thesis by (auto simp add: step_def prevSearchTerm_nextMatch)
next
  case PressPrevious
  with assms(2) show ?thesis by (auto simp add: step_def prevSearchTerm_previousMatch)
qed

lemma prevSearchTerm_run:
  "no_reindex evs \<Longrightarrow> run lc virtuoso is_open disabled evs s = Some s'
     \<Longrightarrow> prevSearchTerm s' = prevSearchTerm s"
proof (induction evs arbitrary: s)
  case Nil
  then show ?case by simp
next
  case (Cons ev evs)
  from Cons.prems(2) obtain s1 where s1: "step lc virtuoso is_open disabled ev s = Some s1"
    "run lc virtuoso is_open disabled evs s1 = Some s'"
    by (auto split: option.splits)
  from Cons.prems(1) have ev: "\<not> is_reindex ev" and evs: "no_reindex evs" by simp_all
  from Cons.IH[OF evs s1(2)] prevSearchTerm_step[OF ev s1(1)] show ?case by simp
qed

lemma stored_term_after_reindex:
  assumes "effective_query lc cfg0 \<noteq> []"
    and "refreshSearch lc virtuoso0 history0 cfg0 s0 = Some s1"
    and "no_reindex evs" and "run lc virtuoso1 is_open disabled evs s1 = Some s"
  shows "prevSearchTerm s = searchTerm cfg0"
  using prevSearchTerm_run[OF assms(3,4)] refreshSearch_stores_term[OF assms(1,2)] by simp

lemma js_nth_first: "js_nth xs 0 = (if xs = [] then None else Some (xs ! 0))"
  by (simp add: js_nth_def)

lemma reselect_same_stored:
  assumes "effective_query lc cfg \<noteq> []"
    and "searchTerm cfg = prevSearchTerm s" and "currentMatch s = Some cm"
  shows "\<exists>s'. refreshSearch lc virtuoso history cfg s = Some s'
     \<and> matches s' = ref_matches lc cfg history
     \<and> currentMatch s' =
         (if truthy (messageId cm)
          then (case find (\<lambda>r. messageId r = messageId cm) (matches s') of
                  Some r \<Rightarrow> Some r
                | None \<Rightarrow> if matches s' = [] then None else Some (matches s' ! 0))
          else (case find (\<lambda>r. messageIndex r = messageIndex cm) (matches s') of
                  Some r \<Rightarrow> Some r
                | None \<Rightarrow> if matches s' = [] then None else Some (matches s' ! 0)))"
proof -
  note q = assms(1)
  define results where "results = ref_matches lc cfg history"
  have scan: "scanHistory lc True history cfg = Some results"
    using q by (simp add: scanHistory_ref results_def ref_matches_def)
  define s1 where "s1 = reselect virtuoso (searchTerm cfg) results s"
  have r: "refreshSearch lc virtuoso history cfg s
             = Some (s1\<lparr>highlightTimeouts := Suc (highlightTimeouts s1)\<rparr>)"
    using q scan by (simp add: refreshSearch_def Let_def s1_def)
  have same: "sameMessage cm =
        (if truthy (messageId cm) then (\<lambda>r. messageId r = messageId cm)
         else (\<lambda>r. messageIndex r = messageIndex cm))"
    by (auto simp add: sameMessage_def fun_eq_iff)
  have cur: "currentMatch s1 =
        (case find (sameMessage cm) results of
           Some r \<Rightarrow> Some r | None \<Rightarrow> if results = [] then None else Some (results ! 0))"
    using assms(2,3)
    by (simp add: s1_def reselect_def Let_def js_nth_first split: option.splits)
  have m: "matches s1 = results" by (simp add: s1_def matches_reselect)
  let ?s' = "s1\<lparr>highlightTimeouts := Suc (highlightTimeouts s1)\<rparr>"
  have m': "matches ?s' = results" using m by simp
  have cur': "currentMatch ?s' =
        (case find (sameMessage cm) results of
           Some r \<Rightarrow> Some r | None \<Rightarrow> if results = [] then None else Some (results ! 0))"
    using cur by simp
  show ?thesis
  proof (rule exI[of _ ?s'], intro conjI)
    show "refreshSearch lc virtuoso history cfg s = Some ?s'" by (rule r)
    show "matches ?s' = ref_matches lc cfg history" using m' by (simp only: results_def)
    show "currentMatch ?s' =
         (if truthy (messageId cm)
          then (case find (\<lambda>r. messageId r = messageId cm) (matches ?s') of
                  Some r \<Rightarrow> Some r
                | None \<Rightarrow> if matches ?s' = [] then None else Some (matches ?s' ! 0))
          else (case find (\<lambda>r. messageIndex r = messageIndex cm) (matches ?s') of
                  Some r \<Rightarrow> Some r
                | None \<Rightarrow> if matches ?s' = [] then None else Some (matches ?s' ! 0)))"
      unfolding m' cur' same by simp
  qed
qed

text \<open>
  The empty term twice in a row, with a current match left over from an earlier search:
  both calls return at once, the match list is empty and the current match stays.
\<close>

theorem reselect_same_term_counterexample:
  "refreshSearch ascii_toLowerCase True example_history (example_config [] False) example_state
     = Some (example_state\<lparr>matches := []\<rparr>)
   \<and> currentMatch (example_state\<lparr>matches := []\<rparr>) = Some (example_match 0 0 ''m-a'')
   \<and> refreshSearch ascii_toLowerCase True example_history (example_config [] False)
       (example_state\<lparr>matches := []\<rparr>)
     = Some (example_state\<lparr>matches := []\<rparr>)
   \<and> matches (example_state\<lparr>matches := []\<rparr>) = []
   \<and> currentMatch (example_state\<lparr>matches := []\<rparr>) \<noteq> None"
  by code_simp

text \<open>
  C2, as the code has it. Let a re-index have produced the match list, let no other
  re-index have run since, and let a current match exist. For a re-index whose search term
  is not empty and equals the term of that previous re-index, \<open>refreshSearch\<close> returns the
  reference match list and the new current match is: if the \<open>messageId\<close> of the previous
  current match is present (defined and not the empty string, as the code tests it), the
  first match of the new list with that \<open>messageId\<close>; if it is absent, the first match
  with the previous \<open>messageIndex\<close>; and if the new list has no such match, the first match
  of the new list, none if the list is empty. (With the empty term \<open>refreshSearch\<close>
  returns at once and re-selects nothing.) \<open>toLowerCase\<close> is taken to map the empty string,
  and no other, to the empty string.
\<close>

theorem reselect_same_term:
  assumes "lower_keeps_empty lc" and "searchTerm cfg \<noteq> []"
    and "refreshSearch lc virtuoso0 history0 cfg0 s0 = Some s1"
    and "no_reindex evs" and "run lc virtuoso1 is_open disabled evs s1 = Some s"
    and "searchTerm cfg = searchTerm cfg0" and "currentMatch s = Some cm"
  shows "\<exists>s'. refreshSearch lc virtuoso history cfg s = Some s'
     \<and> matches s' = ref_matches lc cfg history
     \<and> currentMatch s' =
         (if truthy (messageId cm)
          then (case find (\<lambda>r. messageId r = messageId cm) (matches s') of
                  Some r \<Rightarrow> Some r
                | None \<Rightarrow> if matches s' = [] then None else Some (matches s' ! 0))
          else (case find (\<lambda>r. messageIndex r = messageIndex cm) (matches s') of
                  Some r \<Rightarrow> Some r
                | None \<Rightarrow> if matches s' = [] then None else Some (matches s' ! 0)))"
proof -
  have q: "effective_query lc cfg \<noteq> []"
    using effective_query_nonempty[OF assms(1,2)] .
  have "searchTerm cfg0 \<noteq> []" using assms(2,6) by simp
  from effective_query_nonempty[OF assms(1) this] have q0: "effective_query lc cfg0 \<noteq> []" .
  have "prevSearchTerm s = searchTerm cfg0"
    using stored_term_after_reindex[OF q0 assms(3,4,5)] .
  with assms(6) have st: "searchTerm cfg = prevSearchTerm s" by simp
  from reselect_same_stored[OF q st assms(7)] show ?thesis .
qed

lemma example_after_next:
  "run ascii_toLowerCase True True False [PressNext] example_state
     = Some (example_state\<lparr>currentMatch := Some (example_match 1 1 ''m-b''),
               scrollRequests := [0, 1]\<rparr>)"
  by code_simp

lemma example_shifted_matches:
  "ref_matches ascii_toLowerCase (example_config ''find'' False) example_history_shifted
     = [example_match 0 0 ''m-a'', example_match 1 2 ''m-b'', example_match 2 2 ''m-b'']"
  by code_simp

lemma example_replaced_matches:
  "ref_matches ascii_toLowerCase (example_config ''find'' False) example_history_replaced
     = [example_match 0 0 ''m-a'']"
  by code_simp

lemma example_noid_reached:
  "refreshSearch ascii_toLowerCase True example_history_noid (example_config ''find'' False)
     initial_state
   = Some (example_state\<lparr>matches := [example_match 0 0 [], example_match 1 1 [], example_match 2 1 []],
             currentMatch := Some (example_match 0 0 [])\<rparr>)"
  by code_simp

lemma example_noid_after_next:
  "run ascii_toLowerCase True True False [PressNext, PressNext]
     (example_state\<lparr>matches := [example_match 0 0 [], example_match 1 1 [], example_match 2 1 []],
        currentMatch := Some (example_match 0 0 [])\<rparr>)
   = Some (example_state\<lparr>matches := [example_match 0 0 [], example_match 1 1 [], example_match 2 1 []],
             currentMatch := Some (example_match 2 1 []), scrollRequests := [0, 1, 1]\<rparr>)"
  by code_simp

lemma example_noid_matches:
  "ref_matches ascii_toLowerCase (example_config ''find'' False) example_history_noid
     = [example_match 0 0 [], example_match 1 1 [], example_match 2 1 []]"
  by code_simp

theorem reselect_same_term_witness:
  "(\<exists>s'. refreshSearch ascii_toLowerCase True example_history_shifted
            (example_config ''find'' False)
            (example_state\<lparr>currentMatch := Some (example_match 1 1 ''m-b''),
               scrollRequests := [0, 1]\<rparr>) = Some s'
        \<and> currentMatch s' = Some (example_match 1 2 ''m-b''))
   \<and> (\<exists>s'. refreshSearch ascii_toLowerCase True example_history_replaced
            (example_config ''find'' False)
            (example_state\<lparr>currentMatch := Some (example_match 1 1 ''m-b''),
               scrollRequests := [0, 1]\<rparr>) = Some s'
        \<and> currentMatch s' = Some (example_match 0 0 ''m-a''))
   \<and> (\<exists>s'. refreshSearch ascii_toLowerCase True example_history_noid
            (example_config ''find'' False)
            (example_state\<lparr>matches := [example_match 0 0 [], example_match 1 1 [], example_match 2 1 []],
               currentMatch := Some (example_match 2 1 []), scrollRequests := [0, 1, 1]\<rparr>) = Some s'
        \<and> currentMatch s' = Some (example_match 1 1 []))"
proof -
  let ?cfg = "example_config ''find'' False"
  let ?s = "example_state\<lparr>currentMatch := Some (example_match 1 1 ''m-b''),
               scrollRequests := [0, 1]\<rparr>"
  let ?n = "example_state\<lparr>matches := [example_match 0 0 [], example_match 1 1 [], example_match 2 1 []],
               currentMatch := Some (example_match 2 1 []), scrollRequests := [0, 1, 1]\<rparr>"
  have ne: "searchTerm ?cfg \<noteq> []" by (simp add: example_config_def)
  have nr1: "no_reindex [PressNext :: char event]"
    and nr2: "no_reindex [PressNext :: char event, PressNext]" by simp_all
  have cm: "currentMatch ?s = Some (example_match 1 1 ''m-b'')"
    and cn: "currentMatch ?n = Some (example_match 2 1 [])" by simp_all
  from reselect_same_term [OF lower_keeps_empty_ascii ne example_state_reached nr1 example_after_next refl cm, of True example_history_shifted]
  obtain sa where sa: "refreshSearch ascii_toLowerCase True example_history_shifted ?cfg ?s = Some sa"
    "matches sa = ref_matches ascii_toLowerCase ?cfg example_history_shifted"
    "currentMatch sa =
         (if truthy (messageId (example_match 1 1 ''m-b''))
          then (case find (\<lambda>r. messageId r = messageId (example_match 1 1 ''m-b'')) (matches sa) of
                  Some r \<Rightarrow> Some r
                | None \<Rightarrow> if matches sa = [] then None else Some (matches sa ! 0))
          else (case find (\<lambda>r. messageIndex r = messageIndex (example_match 1 1 ''m-b'')) (matches sa) of
                  Some r \<Rightarrow> Some r
                | None \<Rightarrow> if matches sa = [] then None else Some (matches sa ! 0)))"
    by blast
  have "currentMatch sa = Some (example_match 1 2 ''m-b'')"
    unfolding sa(3) sa(2) example_shifted_matches
    by (simp add: truthy_def example_match_def)
  with sa(1) have a: "\<exists>s'. refreshSearch ascii_toLowerCase True example_history_shifted ?cfg ?s = Some s'
        \<and> currentMatch s' = Some (example_match 1 2 ''m-b'')"
    by blast
  from reselect_same_term [OF lower_keeps_empty_ascii ne example_state_reached nr1 example_after_next refl cm, of True example_history_replaced]
  obtain sb where sb: "refreshSearch ascii_toLowerCase True example_history_replaced ?cfg ?s = Some sb"
    "matches sb = ref_matches ascii_toLowerCase ?cfg example_history_replaced"
    "currentMatch sb =
         (if truthy (messageId (example_match 1 1 ''m-b''))
          then (case find (\<lambda>r. messageId r = messageId (example_match 1 1 ''m-b'')) (matches sb) of
                  Some r \<Rightarrow> Some r
                | None \<Rightarrow> if matches sb = [] then None else Some (matches sb ! 0))
          else (case find (\<lambda>r. messageIndex r = messageIndex (example_match 1 1 ''m-b'')) (matches sb) of
                  Some r \<Rightarrow> Some r
                | None \<Rightarrow> if matches sb = [] then None else Some (matches sb ! 0)))"
    by blast
  have "currentMatch sb = Some (example_match 0 0 ''m-a'')"
    unfolding sb(3) sb(2) example_replaced_matches
    by (simp add: truthy_def example_match_def)
  with sb(1) have b: "\<exists>s'. refreshSearch ascii_toLowerCase True example_history_replaced ?cfg ?s = Some s'
        \<and> currentMatch s' = Some (example_match 0 0 ''m-a'')"
    by blast
  from reselect_same_term [OF lower_keeps_empty_ascii ne example_noid_reached nr2 example_noid_after_next refl cn, of True example_history_noid]
  obtain sc where sc: "refreshSearch ascii_toLowerCase True example_history_noid ?cfg ?n = Some sc"
    "matches sc = ref_matches ascii_toLowerCase ?cfg example_history_noid"
    "currentMatch sc =
         (if truthy (messageId (example_match 2 1 []))
          then (case find (\<lambda>r. messageId r = messageId (example_match 2 1 [])) (matches sc) of
                  Some r \<Rightarrow> Some r
                | None \<Rightarrow> if matches sc = [] then None else Some (matches sc ! 0))
          else (case find (\<lambda>r. messageIndex r = messageIndex (example_match 2 1 [])) (matches sc) of
                  Some r \<Rightarrow> Some r
                | None \<Rightarrow> if matches sc = [] then None else Some (matches sc ! 0)))"
    by blast
  have "currentMatch sc = Some (example_match 1 1 [])"
    unfolding sc(3) sc(2) example_noid_matches
    by (simp add: truthy_def example_match_def)
  with sc(1) have c: "\<exists>s'. refreshSearch ascii_toLowerCase True example_history_noid ?cfg ?n = Some s'
        \<and> currentMatch s' = Some (example_match 1 1 [])"
    by blast
  from a b c show ?thesis by blast
qed

text \<open>
  Where a message holds several matches the relocation takes the first of them: after two
  calls of \<open>next()\<close> the current match is the second match of the second message, and a
  re-index with the unchanged term moves it to the first match of that message.
\<close>

lemma relocation_first_of_message:
  "run ascii_toLowerCase True True False
     [PressNext, PressNext, SearchEffect example_history (example_config ''find'' False)]
     example_state
   = Some (example_state\<lparr>currentMatch := Some (example_match 1 1 ''m-b''),
             scrollRequests := [0, 1, 1], highlightTimeouts := 2\<rparr>)"
  by code_simp

section \<open>Re-selection with a changed term\<close>








section \<open>The closed or disabled widget\<close>

lemma nextMatch_no_matches: "matches s = [] \<Longrightarrow> nextMatch virtuoso s = Returned s"
  by (simp add: nextMatch_def split: option.splits)

lemma previousMatch_no_matches: "matches s = [] \<Longrightarrow> previousMatch virtuoso s = Returned s"
  by (simp add: previousMatch_def split: option.splits)

lemma step_v1_closed:
  assumes "\<not> is_open \<or> disabled" "closed_inv_v1 s"
  shows "\<exists>s'. step_v1 lc virtuoso is_open disabled ev s = Some s' \<and> closed_inv_v1 s'"
proof (cases ev)
  case (HighlightEffect_v1 found)
  with assms show ?thesis
    by (auto simp add: step_v1_def highlightEffect_v1_def closed_inv_v1_def Let_def)
next
  case (SearchEffect_v1 history cfg)
  with assms show ?thesis
    by (auto simp add: step_v1_def searchEffect_v1_def closed_inv_v1_def)
next
  case (PollTick found)
  with assms show ?thesis
    by (simp add: step_v1_def pollTick_def closed_inv_v1_def)
next
  case PressNext_v1
  with assms show ?thesis
    by (simp add: step_v1_def closed_inv_v1_def nextMatch_no_matches)
next
  case PressPrevious_v1
  with assms show ?thesis
    by (simp add: step_v1_def closed_inv_v1_def previousMatch_no_matches)
qed

lemma run_v1_closed:
  assumes "\<not> is_open \<or> disabled"
  shows "closed_inv_v1 s \<Longrightarrow>
         \<exists>s'. run_v1 lc virtuoso is_open disabled evs s = Some s' \<and> closed_inv_v1 s'"
proof (induction evs arbitrary: s)
  case Nil
  then show ?case by simp
next
  case (Cons ev evs)
  from step_v1_closed[OF assms Cons.prems, of lc virtuoso ev] obtain s1 where
    s1: "step_v1 lc virtuoso is_open disabled ev s = Some s1" "closed_inv_v1 s1" by blast
  from Cons.IH[OF s1(2)] show ?case by (simp add: s1(1))
qed

lemma effects_v1_closed:
  assumes "\<not> is_open \<or> disabled"
  shows "closed_inv_v1 ((highlightEffect_v1 is_open disabled found s)\<lparr>matches := []\<rparr>)"
  using assms by (auto simp add: highlightEffect_v1_def closed_inv_v1_def Let_def)

lemma step_closed:
  assumes "\<not> is_open \<or> disabled" "matches s = []"
  shows "\<exists>s'. step lc virtuoso is_open disabled ev s = Some s' \<and> matches s' = []"
proof (cases ev)
  case (SearchEffect history cfg)
  with assms show ?thesis by (auto simp add: step_def searchEffect_def)
next
  case (HighlightTimeout found)
  with assms show ?thesis
    by (simp add: step_def highlightTimeoutFires_def updateHighlights_def)
next
  case (ContainerClick found)
  with assms show ?thesis by (simp add: step_def updateHighlights_def)
next
  case (RunHighlightUpdate found)
  with assms show ?thesis by (simp add: step_def updateHighlights_def)
next
  case PressNext
  with assms show ?thesis by (simp add: step_def nextMatch_no_matches)
next
  case PressPrevious
  with assms show ?thesis by (simp add: step_def previousMatch_no_matches)
qed

lemma run_closed:
  assumes "\<not> is_open \<or> disabled"
  shows "matches s = [] \<Longrightarrow>
         \<exists>s'. run lc virtuoso is_open disabled evs s = Some s' \<and> matches s' = []"
proof (induction evs arbitrary: s)
  case Nil
  then show ?case by simp
next
  case (Cons ev evs)
  from step_closed[OF assms Cons.prems, of lc virtuoso ev] obtain s1 where
    s1: "step lc virtuoso is_open disabled ev s = Some s1" "matches s1 = []" by blast
  from Cons.IH[OF s1(2)] show ?case by (simp add: s1(1))
qed

text \<open>
  The second variant, closed: its only effect empties the match list and leaves the
  highlights that are on screen; a later \<open>runHighlightUpdate\<close> computes highlights again.
\<close>

theorem closed_widget_counterexample:
  "searchEffect ascii_toLowerCase True False False example_history (example_config ''find'' False)
     (example_state\<lparr>visibleHighlights := [example_highlight]\<rparr>)
     = Some (example_state\<lparr>visibleHighlights := [example_highlight], matches := []\<rparr>)
   \<and> visibleHighlights (example_state\<lparr>visibleHighlights := [example_highlight], matches := []\<rparr>) \<noteq> []
   \<and> run ascii_toLowerCase True False False
        [SearchEffect example_history (example_config ''find'' False),
         RunHighlightUpdate [example_highlight]] example_state
     = Some (example_state\<lparr>matches := [], visibleHighlights := [example_highlight]\<rparr>)"
  by (simp add: searchEffect_def step_def updateHighlights_def)

text \<open>
  C8, as the code has it. While the widget is closed or disabled: in the first variant the
  highlight effect stops the polling and empties \<open>visibleHighlights\<close> without computing
  highlights, the search effect empties \<open>matches\<close> without searching, and after both have
  run every further event (an effect running again, a tick, a navigation key) leaves
  \<open>matches\<close> and \<open>visibleHighlights\<close> empty; in the second variant the search effect empties
  \<open>matches\<close> without searching and changes nothing else, and every further event leaves
  \<open>matches\<close> empty.
\<close>

theorem closed_widget_clears:
  assumes "\<not> is_open \<or> disabled"
  shows "highlightEffect_v1 is_open disabled found s = s\<lparr>pollArmed := False, visibleHighlights := []\<rparr>
     \<and> searchEffect_v1 lc virtuoso is_open disabled history cfg s = Some (s\<lparr>matches := []\<rparr>)
     \<and> (\<exists>s'. run_v1 lc virtuoso is_open disabled
                (HighlightEffect_v1 found # SearchEffect_v1 history cfg # evs) s = Some s'
            \<and> matches s' = [] \<and> visibleHighlights s' = [] \<and> \<not> pollArmed s')
     \<and> searchEffect lc virtuoso is_open disabled history cfg s = Some (s\<lparr>matches := []\<rparr>)
     \<and> (\<exists>s'. run lc virtuoso is_open disabled (SearchEffect history cfg # evs') s = Some s'
            \<and> matches s' = [])"
proof -
  have h: "highlightEffect_v1 is_open disabled found s = s\<lparr>pollArmed := False, visibleHighlights := []\<rparr>"
    using assms by (auto simp add: highlightEffect_v1_def Let_def)
  have e1: "searchEffect_v1 lc virtuoso is_open disabled history cfg s = Some (s\<lparr>matches := []\<rparr>)" for s
    using assms by (auto simp add: searchEffect_v1_def)
  have e2: "searchEffect lc virtuoso is_open disabled history cfg s = Some (s\<lparr>matches := []\<rparr>)"
    using assms by (auto simp add: searchEffect_def)
  have "closed_inv_v1 ((highlightEffect_v1 is_open disabled found s)\<lparr>matches := []\<rparr>)"
    using effects_v1_closed[OF assms] .
  from run_v1_closed[OF assms this, of lc virtuoso evs]
  have r1: "\<exists>s'. run_v1 lc virtuoso is_open disabled
                (HighlightEffect_v1 found # SearchEffect_v1 history cfg # evs) s = Some s'
            \<and> matches s' = [] \<and> visibleHighlights s' = [] \<and> \<not> pollArmed s'"
    by (simp add: step_v1_def e1 closed_inv_v1_def)
  have "matches (s\<lparr>matches := []\<rparr>) = []" by simp
  from run_closed[OF assms this, of lc virtuoso evs']
  have r2: "\<exists>s'. run lc virtuoso is_open disabled (SearchEffect history cfg # evs') s = Some s'
            \<and> matches s' = []"
    by (simp add: step_def e2)
  from h e1 e2 r1 r2 show ?thesis by blast
qed

theorem closed_widget_clears_witness:
  "(\<exists>s'. run_v1 ascii_toLowerCase True False False
          [HighlightEffect_v1 [example_highlight],
           SearchEffect_v1 example_history (example_config ''find'' False),
           PollTick [example_highlight], PressNext_v1]
          (example_state\<lparr>visibleHighlights := [example_highlight], pollArmed := True\<rparr>) = Some s'
        \<and> matches s' = [] \<and> visibleHighlights s' = [] \<and> \<not> pollArmed s')
   \<and> (\<exists>s'. run ascii_toLowerCase True False False
          [SearchEffect example_history (example_config ''find'' False), PressNext]
          example_state = Some s' \<and> matches s' = [])"
  using closed_widget_clears [of False False "[example_highlight]"
      "example_state\<lparr>visibleHighlights := [example_highlight], pollArmed := True\<rparr>"
      ascii_toLowerCase True example_history "example_config ''find'' False"
      "[PollTick [example_highlight], PressNext_v1]" "[PressNext]"]
    closed_widget_clears [of False False "[example_highlight]" example_state
      ascii_toLowerCase True example_history "example_config ''find'' False"
      "[]" "[PressNext]"]
  by simp

end
